theory Spec2Isabelle
  imports Complex_Main
begin

section \<open>The ordered map underneath the LRU\<close>

text \<open>
  Modelled from the spec: the ordered map \<^verbatim>\<open>omap.OrderedMap\<close> of the package
  \<^verbatim>\<open>github.com/kasegao/go-orderedmap\<close> is imported by \<^verbatim>\<open>simplelru/lru_generics.go\<close>
  and is not part of the sources. The spec describes it as an insertion-ordered mapping
  with reorder-to-tail and access by position zero, the oldest entry first. It is modelled
  as a list of (key, value) pairs, oldest first: \<^verbatim>\<open>Set\<close> overwrites the value of a key that
  is present where it stands and appends a new key at the tail, \<^verbatim>\<open>ToTail\<close> moves a present
  key to the tail, \<^verbatim>\<open>Delete\<close> and \<^verbatim>\<open>Pop\<close> take a key out, \<^verbatim>\<open>GetAt\<close> reads by position.
\<close>

type_synonym ('k, 'v) omap = "('k \<times> 'v) list"

definition omap_New :: "('k, 'v) omap" where
  "omap_New = []"

definition omap_Get :: "('k, 'v) omap \<Rightarrow> 'k \<Rightarrow> 'v option" where
  "omap_Get m k = map_of m k"

fun omap_Set :: "('k, 'v) omap \<Rightarrow> 'k \<Rightarrow> 'v \<Rightarrow> ('k, 'v) omap" where
  "omap_Set [] k v = [(k, v)]"
| "omap_Set (e # m) k v = (if fst e = k then (k, v) # m else e # omap_Set m k v)"

definition omap_Delete :: "('k, 'v) omap \<Rightarrow> 'k \<Rightarrow> ('k, 'v) omap" where
  "omap_Delete m k = filter (\<lambda>e. fst e \<noteq> k) m"

definition omap_ToTail :: "('k, 'v) omap \<Rightarrow> 'k \<Rightarrow> ('k, 'v) omap" where
  "omap_ToTail m k =
     (case map_of m k of None \<Rightarrow> m | Some v \<Rightarrow> omap_Delete m k @ [(k, v)])"

definition omap_Pop :: "('k, 'v) omap \<Rightarrow> 'k \<Rightarrow> ('k \<times> 'v) option \<times> ('k, 'v) omap" where
  "omap_Pop m k =
     (case map_of m k of None \<Rightarrow> (None, m) | Some v \<Rightarrow> (Some (k, v), omap_Delete m k))"

definition omap_GetAt :: "('k, 'v) omap \<Rightarrow> int \<Rightarrow> ('k \<times> 'v) option" where
  "omap_GetAt m i = (if 0 \<le> i \<and> i < int (length m) then Some (m ! nat i) else None)"

definition omap_Keys :: "('k, 'v) omap \<Rightarrow> 'k list" where
  "omap_Keys m = map fst m"

definition omap_Items :: "('k, 'v) omap \<Rightarrow> ('k \<times> 'v) list" where
  "omap_Items m = m"

definition omap_Len :: "('k, 'v) omap \<Rightarrow> int" where
  "omap_Len m = int (length m)"

section \<open>The bounded ordered cache: \<^verbatim>\<open>simplelru/lru_generics.go\<close>\<close>

text \<open>
  The struct \<^verbatim>\<open>LRUG\<close>. Go's \<^verbatim>\<open>int\<close> has 64 bits; its values are modelled by the numbers of
  \<^typ>\<open>int\<close> they denote. The only arithmetic on it is the comparison of a length with the
  capacity and, in \<^verbatim>\<open>Resize\<close>, the difference of a length and the new capacity, which can
  leave the range of \<^verbatim>\<open>int\<close> and then wraps around (see \<open>Len_minus_size\<close>).
  The callback \<^verbatim>\<open>onEvict\<close> is a side effect of the caller:
  the field \<open>onEvict\<close> says whether one is installed (it is not \<^verbatim>\<open>nil\<close>) and \<open>onEvict_calls\<close>
  records the (key, value) pairs it has been called with, in the order of the calls.
  A lookup result \<^verbatim>\<open>(value, ok)\<close> is an option: \<open>Some v\<close> for \<^verbatim>\<open>(v, true)\<close> and \<open>None\<close> for
  the zero value with \<^verbatim>\<open>false\<close>.
\<close>

record ('k, 'v) LRUG =
  size_lru :: int
  items :: "('k, 'v) omap"
  onEvict :: bool
  onEvict_calls :: "('k \<times> 'v) list"

datatype error = InvalidSize | InvalidRecentRatio | InvalidGhostRatio | NotPositiveSize

definition NewLRUG :: "int \<Rightarrow> bool \<Rightarrow> error + ('k, 'v) LRUG" where
  "NewLRUG sz cb =
     (if sz \<le> 0 then Inl NotPositiveSize
      else Inr \<lparr>size_lru = sz, items = omap_New, onEvict = cb, onEvict_calls = []\<rparr>)"

definition removeElement :: "'k \<Rightarrow> ('k, 'v) LRUG \<Rightarrow> ('k, 'v) LRUG" where
  "removeElement key c =
     (case omap_Pop (items c) key of
        (Some e, m) \<Rightarrow>
          c\<lparr>items := m,
            onEvict_calls := (if onEvict c then onEvict_calls c @ [e] else onEvict_calls c)\<rparr>
      | (None, m) \<Rightarrow> c\<lparr>items := m\<rparr>)"

definition removeOldest :: "('k, 'v) LRUG \<Rightarrow> ('k, 'v) LRUG" where
  "removeOldest c =
     (case omap_GetAt (items c) 0 of Some e \<Rightarrow> removeElement (fst e) c | None \<Rightarrow> c)"

definition LRUG_Purge_step :: "'k \<times> 'v \<Rightarrow> ('k, 'v) LRUG \<Rightarrow> ('k, 'v) LRUG" where
  "LRUG_Purge_step item c =
     c\<lparr>items := omap_Delete (items c) (fst item),
       onEvict_calls := (if onEvict c then onEvict_calls c @ [item] else onEvict_calls c)\<rparr>"

definition LRUG_Purge :: "('k, 'v) LRUG \<Rightarrow> ('k, 'v) LRUG" where
  "LRUG_Purge c = fold LRUG_Purge_step (omap_Items (items c)) c"

definition LRUG_Add :: "'k \<Rightarrow> 'v \<Rightarrow> ('k, 'v) LRUG \<Rightarrow> bool \<times> ('k, 'v) LRUG" where
  "LRUG_Add key val c =
     (let m1 = (case omap_Get (items c) key of
                  Some _ \<Rightarrow> omap_ToTail (items c) key
                | None \<Rightarrow> items c);
          c2 = c\<lparr>items := omap_Set m1 key val\<rparr>;
          evict = (omap_Len (items c2) > size_lru c2)
      in if evict then (True, removeOldest c2) else (False, c2))"

definition LRUG_Peek :: "'k \<Rightarrow> ('k, 'v) LRUG \<Rightarrow> 'v option" where
  "LRUG_Peek key c = omap_Get (items c) key"

definition LRUG_Get :: "'k \<Rightarrow> ('k, 'v) LRUG \<Rightarrow> 'v option \<times> ('k, 'v) LRUG" where
  "LRUG_Get key c =
     (case LRUG_Peek key c of
        Some v \<Rightarrow> (Some v, c\<lparr>items := omap_ToTail (items c) key\<rparr>)
      | None \<Rightarrow> (None, c))"

definition LRUG_Contains :: "'k \<Rightarrow> ('k, 'v) LRUG \<Rightarrow> bool" where
  "LRUG_Contains key c = (omap_Get (items c) key \<noteq> None)"

definition LRUG_Remove :: "'k \<Rightarrow> ('k, 'v) LRUG \<Rightarrow> bool \<times> ('k, 'v) LRUG" where
  "LRUG_Remove key c =
     (case LRUG_Peek key c of
        Some _ \<Rightarrow> (True, removeElement key c)
      | None \<Rightarrow> (False, c))"

definition LRUG_RemoveOldest :: "('k, 'v) LRUG \<Rightarrow> ('k \<times> 'v) option \<times> ('k, 'v) LRUG" where
  "LRUG_RemoveOldest c =
     (case omap_GetAt (items c) 0 of
        Some e \<Rightarrow> (Some e, removeElement (fst e) c)
      | None \<Rightarrow> (None, c))"

definition LRUG_GetOldest :: "('k, 'v) LRUG \<Rightarrow> ('k \<times> 'v) option" where
  "LRUG_GetOldest c = omap_GetAt (items c) 0"

definition LRUG_Keys :: "('k, 'v) LRUG \<Rightarrow> 'k list" where
  "LRUG_Keys c = omap_Keys (items c)"

definition LRUG_Len :: "('k, 'v) LRUG \<Rightarrow> int" where
  "LRUG_Len c = omap_Len (items c)"

text \<open>The loop of \<^verbatim>\<open>Resize\<close>: \<^verbatim>\<open>for i := 0; i < diff; i++ { c.removeOldest() }\<close>.\<close>

fun Resize_loop :: "nat \<Rightarrow> ('k, 'v) LRUG \<Rightarrow> ('k, 'v) LRUG" where
  "Resize_loop 0 c = c"
| "Resize_loop (Suc n) c = Resize_loop n (removeOldest c)"

text \<open>
  The subtraction \<^verbatim>\<open>c.Len() - size\<close> of \<^verbatim>\<open>Resize\<close>, on 64-bit integers. \<^verbatim>\<open>Len()\<close> is a length,
  between 0 and \<^verbatim>\<open>2^63 - 1\<close>, and \<^verbatim>\<open>size\<close> is at least \<^verbatim>\<open>-2^63\<close>: the difference never falls
  below the range of \<^verbatim>\<open>int\<close>, and it exceeds the range only when \<^verbatim>\<open>size\<close> is negative. It then
  wraps around: the result is the difference minus \<^verbatim>\<open>2^64\<close>, a negative number. So
  \<^verbatim>\<open>Resize(math.MinInt64)\<close> on a cache of three entries computes \<^verbatim>\<open>3 - 2^63\<close>.
\<close>

definition Len_minus_size :: "int \<Rightarrow> int \<Rightarrow> int" where
  "Len_minus_size len sz =
     (if sz < 0 \<and> 2 ^ 63 \<le> len - sz then len - sz - 2 ^ 64 else len - sz)"

definition LRUG_Resize :: "int \<Rightarrow> ('k, 'v) LRUG \<Rightarrow> int \<times> ('k, 'v) LRUG" where
  "LRUG_Resize sz c =
     (let diff0 = Len_minus_size (LRUG_Len c) sz;
          diff = (if diff0 < 0 then 0 else diff0)
      in (diff, (Resize_loop (nat diff) c)\<lparr>size_lru := sz\<rparr>))"

section \<open>The two-queue cache: \<^verbatim>\<open>2q_generics.go\<close>\<close>

text \<open>
  The struct \<^verbatim>\<open>TwoQueueCacheG\<close>, without its lock: the operations are modelled as they run
  one at a time. The sums of two lengths in \<^verbatim>\<open>ensureSpace\<close> and \<^verbatim>\<open>Len\<close> are the sums of the
  numbers: the entries of two pools are in memory together, far fewer than \<^verbatim>\<open>2^63\<close>.
  The zero value of the value type (\<^verbatim>\<open>var empty V\<close>), stored with a ghost, is
  the constant \<open>default\<close> of the type class of that name; for Go's \<^verbatim>\<open>int\<close> it is 0.
\<close>

instantiation int :: default
begin

definition default_int :: int where
  "default_int = 0"

instance ..

end

record ('k, 'v) TwoQueueCacheG =
  size_2q :: int
  recentSize :: int
  recent :: "('k, 'v) LRUG"
  frequent :: "('k, 'v) LRUG"
  recentEvict :: "('k, 'v) LRUG"

text \<open>
  A ratio is a \<^verbatim>\<open>float64\<close>. A finite \<^verbatim>\<open>float64\<close> is the rational number it denotes, and the
  comparisons with \<^verbatim>\<open>0.0\<close> and \<^verbatim>\<open>1.0\<close> are the comparisons of these numbers (a NaN is not
  modelled). The product \<^verbatim>\<open>float64(size) * ratio\<close> is rounded by the machine: it is the
  parameter \<open>fmul\<close>, and \<open>fmul_exact\<close> is the product when no rounding occurs. The
  conversion \<^verbatim>\<open>int(x)\<close> drops the fraction when the result is in the range of the 64-bit
  \<^verbatim>\<open>int\<close>. When it is not, the result depends on the implementation: it is the parameter
  \<open>out_of_range\<close>. The function \<open>int_indefinite\<close> is the result on amd64, the smallest
  \<^verbatim>\<open>int\<close> whatever the value; so \<^verbatim>\<open>int(float64(math.MaxInt64) * 1.0)\<close>, whose product is
  \<^verbatim>\<open>2^63\<close>, is \<^verbatim>\<open>-2^63\<close> there.
\<close>

definition fmul_exact :: "int \<Rightarrow> rat \<Rightarrow> rat" where
  "fmul_exact n r = of_int n * r"

definition truncate_rat :: "rat \<Rightarrow> int" where
  "truncate_rat x = (if 0 \<le> x then \<lfloor>x\<rfloor> else \<lceil>x\<rceil>)"

definition float_to_int :: "(rat \<Rightarrow> int) \<Rightarrow> rat \<Rightarrow> int" where
  "float_to_int out_of_range x =
     (if - (2 ^ 63) \<le> truncate_rat x \<and> truncate_rat x < 2 ^ 63 then truncate_rat x
      else out_of_range x)"

definition int_indefinite :: "rat \<Rightarrow> int" where
  "int_indefinite x = - (2 ^ 63)"

text \<open>
  A product that agrees with the machine at \<^verbatim>\<open>float64(math.MaxInt64) * 1.0\<close>: the
  \<^verbatim>\<open>float64\<close> nearest to \<^verbatim>\<open>2^63 - 1\<close> is \<^verbatim>\<open>2^63\<close>. Elsewhere it is the exact product.
\<close>

definition fmul_MaxInt64 :: "int \<Rightarrow> rat \<Rightarrow> rat" where
  "fmul_MaxInt64 n r = (if n = 2 ^ 63 - 1 \<and> r = 1 then 2 ^ 63 else of_int n * r)"

definition New2QParamsG ::
  "(int \<Rightarrow> rat \<Rightarrow> rat) \<Rightarrow> (rat \<Rightarrow> int) \<Rightarrow> int \<Rightarrow> rat \<Rightarrow> rat \<Rightarrow>
     error + ('k, 'v) TwoQueueCacheG" where
  "New2QParamsG fmul out_of_range sz recentRatio ghostRatio =
     (if sz \<le> 0 then Inl InvalidSize
      else if recentRatio < 0 \<or> recentRatio > 1 then Inl InvalidRecentRatio
      else if ghostRatio < 0 \<or> ghostRatio > 1 then Inl InvalidGhostRatio
      else
        let recentSz = float_to_int out_of_range (fmul sz recentRatio);
            evictSz = float_to_int out_of_range (fmul sz ghostRatio)
        in case NewLRUG sz False of
             Inl err \<Rightarrow> Inl err
           | Inr rc \<Rightarrow>
              (case NewLRUG sz False of
                 Inl err \<Rightarrow> Inl err
               | Inr fr \<Rightarrow>
                  (case NewLRUG evictSz False of
                     Inl err \<Rightarrow> Inl err
                   | Inr re \<Rightarrow>
                       Inr \<lparr>size_2q = sz, recentSize = recentSz,
                            recent = rc, frequent = fr, recentEvict = re\<rparr>)))"

definition Default2QRecentRatioG :: rat where
  "Default2QRecentRatioG = 1 / 4"

definition Default2QGhostEntriesG :: rat where
  "Default2QGhostEntriesG = 1 / 2"

definition New2QG ::
  "(int \<Rightarrow> rat \<Rightarrow> rat) \<Rightarrow> (rat \<Rightarrow> int) \<Rightarrow> int \<Rightarrow> error + ('k, 'v) TwoQueueCacheG" where
  "New2QG fmul out_of_range sz =
     New2QParamsG fmul out_of_range sz Default2QRecentRatioG Default2QGhostEntriesG"

definition ensureSpace ::
  "bool \<Rightarrow> ('k, 'v::default) TwoQueueCacheG \<Rightarrow> ('k, 'v) TwoQueueCacheG" where
  "ensureSpace recentEvictHint c =
     (let recentLen = LRUG_Len (recent c);
          freqLen = LRUG_Len (frequent c)
      in if recentLen + freqLen < size_2q c then c
         else if recentLen > 0 \<and>
                 (recentLen > recentSize c \<or> (recentLen = recentSize c \<and> \<not> recentEvictHint))
         then (case LRUG_RemoveOldest (recent c) of
                 (Some e, rc) \<Rightarrow>
                   c\<lparr>recent := rc, recentEvict := snd (LRUG_Add (fst e) default (recentEvict c))\<rparr>
               | (None, rc) \<Rightarrow> c\<lparr>recent := rc\<rparr>)
         else c\<lparr>frequent := snd (LRUG_RemoveOldest (frequent c))\<rparr>)"

definition TwoQ_Get ::
  "'k \<Rightarrow> ('k, 'v) TwoQueueCacheG \<Rightarrow> 'v option \<times> ('k, 'v) TwoQueueCacheG" where
  "TwoQ_Get key c =
     (case LRUG_Get key (frequent c) of
        (Some v, fr) \<Rightarrow> (Some v, c\<lparr>frequent := fr\<rparr>)
      | (None, fr) \<Rightarrow>
          (case LRUG_Peek key (recent c) of
             Some v \<Rightarrow>
               (Some v, c\<lparr>recent := snd (LRUG_Remove key (recent c)),
                          frequent := snd (LRUG_Add key v fr)\<rparr>)
           | None \<Rightarrow> (None, c\<lparr>frequent := fr\<rparr>)))"

definition TwoQ_Add ::
  "'k \<Rightarrow> 'v \<Rightarrow> ('k, 'v::default) TwoQueueCacheG \<Rightarrow> ('k, 'v) TwoQueueCacheG" where
  "TwoQ_Add key val c =
     (if LRUG_Contains key (frequent c)
      then c\<lparr>frequent := snd (LRUG_Add key val (frequent c))\<rparr>
      else if LRUG_Contains key (recent c)
      then c\<lparr>recent := snd (LRUG_Remove key (recent c)),
             frequent := snd (LRUG_Add key val (frequent c))\<rparr>
      else if LRUG_Contains key (recentEvict c)
      then (let c1 = ensureSpace True c
            in c1\<lparr>recentEvict := snd (LRUG_Remove key (recentEvict c1)),
                  frequent := snd (LRUG_Add key val (frequent c1))\<rparr>)
      else (let c1 = ensureSpace False c
            in c1\<lparr>recent := snd (LRUG_Add key val (recent c1))\<rparr>))"

definition TwoQ_Len :: "('k, 'v) TwoQueueCacheG \<Rightarrow> int" where
  "TwoQ_Len c = LRUG_Len (recent c) + LRUG_Len (frequent c)"

definition TwoQ_Keys :: "('k, 'v) TwoQueueCacheG \<Rightarrow> 'k list" where
  "TwoQ_Keys c = LRUG_Keys (frequent c) @ LRUG_Keys (recent c)"

definition TwoQ_Remove :: "'k \<Rightarrow> ('k, 'v) TwoQueueCacheG \<Rightarrow> ('k, 'v) TwoQueueCacheG" where
  "TwoQ_Remove key c =
     (case LRUG_Remove key (frequent c) of
        (True, fr) \<Rightarrow> c\<lparr>frequent := fr\<rparr>
      | (False, fr) \<Rightarrow>
          (case LRUG_Remove key (recent c) of
             (True, rc) \<Rightarrow> c\<lparr>frequent := fr, recent := rc\<rparr>
           | (False, rc) \<Rightarrow>
               c\<lparr>frequent := fr, recent := rc,
                 recentEvict := snd (LRUG_Remove key (recentEvict c))\<rparr>))"

definition TwoQ_Purge :: "('k, 'v) TwoQueueCacheG \<Rightarrow> ('k, 'v) TwoQueueCacheG" where
  "TwoQ_Purge c =
     c\<lparr>recent := LRUG_Purge (recent c),
       frequent := LRUG_Purge (frequent c),
       recentEvict := LRUG_Purge (recentEvict c)\<rparr>"

definition TwoQ_Contains :: "'k \<Rightarrow> ('k, 'v) TwoQueueCacheG \<Rightarrow> bool" where
  "TwoQ_Contains key c = (LRUG_Contains key (frequent c) \<or> LRUG_Contains key (recent c))"

definition TwoQ_Peek :: "'k \<Rightarrow> ('k, 'v) TwoQueueCacheG \<Rightarrow> 'v option" where
  "TwoQ_Peek key c =
     (case LRUG_Peek key (frequent c) of
        Some v \<Rightarrow> Some v
      | None \<Rightarrow> LRUG_Peek key (recent c))"

subsection \<open>Sequences of public operations\<close>

datatype ('k, 'v) twoq_op =
  OpGet 'k | OpAdd 'k 'v | OpRemove 'k | OpContains 'k | OpPeek 'k | OpKeys | OpLen | OpPurge

fun twoq_step :: "('k, 'v::default) twoq_op \<Rightarrow> ('k, 'v) TwoQueueCacheG \<Rightarrow> ('k, 'v) TwoQueueCacheG" where
  "twoq_step (OpGet k) c = snd (TwoQ_Get k c)"
| "twoq_step (OpAdd k v) c = TwoQ_Add k v c"
| "twoq_step (OpRemove k) c = TwoQ_Remove k c"
| "twoq_step (OpContains k) c = c"
| "twoq_step (OpPeek k) c = c"
| "twoq_step OpKeys c = c"
| "twoq_step OpLen c = c"
| "twoq_step OpPurge c = TwoQ_Purge c"

definition twoq_run :: "('k, 'v::default) twoq_op list \<Rightarrow> ('k, 'v) TwoQueueCacheG \<Rightarrow> ('k, 'v) TwoQueueCacheG" where
  "twoq_run ops c = fold twoq_step ops c"

datatype ('k, 'v) lru_op =
  LAdd 'k 'v | LGet 'k | LContains 'k | LPeek 'k | LRemove 'k | LRemoveOldest | LGetOldest
  | LKeys | LLen | LResize int | LPurge

fun lru_step :: "('k, 'v) lru_op \<Rightarrow> ('k, 'v) LRUG \<Rightarrow> ('k, 'v) LRUG" where
  "lru_step (LAdd k v) c = snd (LRUG_Add k v c)"
| "lru_step (LGet k) c = snd (LRUG_Get k c)"
| "lru_step (LContains k) c = c"
| "lru_step (LPeek k) c = c"
| "lru_step (LRemove k) c = snd (LRUG_Remove k c)"
| "lru_step LRemoveOldest c = snd (LRUG_RemoveOldest c)"
| "lru_step LGetOldest c = c"
| "lru_step LKeys c = c"
| "lru_step LLen c = c"
| "lru_step (LResize n) c = snd (LRUG_Resize n c)"
| "lru_step LPurge c = LRUG_Purge c"

definition lru_run :: "('k, 'v) lru_op list \<Rightarrow> ('k, 'v) LRUG \<Rightarrow> ('k, 'v) LRUG" where
  "lru_run ops c = fold lru_step ops c"

subsection \<open>The invariant of the bounded ordered cache\<close>


subsection \<open>Well-formed states and two concrete caches\<close>

text \<open>
  The invariant of the two-queue cache that the proofs below carry through every public
  operation: no pool holds a key twice, no key is in two pools, and every pool was built
  with a positive capacity.
\<close>

definition twoq_inv :: "('k, 'v) TwoQueueCacheG \<Rightarrow> bool" where
  "twoq_inv c \<longleftrightarrow>
     distinct (LRUG_Keys (recent c)) \<and> distinct (LRUG_Keys (frequent c)) \<and>
     distinct (LRUG_Keys (recentEvict c)) \<and>
     set (LRUG_Keys (recent c)) \<inter> set (LRUG_Keys (frequent c)) = {} \<and>
     set (LRUG_Keys (recent c)) \<inter> set (LRUG_Keys (recentEvict c)) = {} \<and>
     set (LRUG_Keys (frequent c)) \<inter> set (LRUG_Keys (recentEvict c)) = {} \<and>
     0 < size_lru (recent c) \<and> 0 < size_lru (frequent c) \<and> 0 < size_lru (recentEvict c)"

text \<open>The number of pools (recent, frequent, ghosts) that contain a key.\<close>

definition pools_holding :: "'k \<Rightarrow> ('k, 'v) TwoQueueCacheG \<Rightarrow> nat" where
  "pools_holding k c =
     length (filter (LRUG_Contains k) [recent c, frequent c, recentEvict c])"

text \<open>
  The cache that \<^verbatim>\<open>New2QParamsG(2, 1.0, 1.0)\<close> returns, with \<^verbatim>\<open>int\<close> keys and values, and
  its state after \<^verbatim>\<open>Add(1, 10); Add(2, 20); Add(3, 30)\<close>.
\<close>

definition cache_2_1_1 :: "(nat, int) TwoQueueCacheG" where
  "cache_2_1_1 =
     \<lparr>size_2q = 2, recentSize = 2,
      recent = \<lparr>size_lru = 2, items = [], onEvict = False, onEvict_calls = []\<rparr>,
      frequent = \<lparr>size_lru = 2, items = [], onEvict = False, onEvict_calls = []\<rparr>,
      recentEvict = \<lparr>size_lru = 2, items = [], onEvict = False, onEvict_calls = []\<rparr>\<rparr>"

definition cache_2_1_1_full :: "(nat, int) TwoQueueCacheG" where
  "cache_2_1_1_full =
     \<lparr>size_2q = 2, recentSize = 2,
      recent = \<lparr>size_lru = 2, items = [(2, 20), (3, 30)], onEvict = False, onEvict_calls = []\<rparr>,
      frequent = \<lparr>size_lru = 2, items = [], onEvict = False, onEvict_calls = []\<rparr>,
      recentEvict = \<lparr>size_lru = 2, items = [(1, 0)], onEvict = False, onEvict_calls = []\<rparr>\<rparr>"

text \<open>
  The cache that \<^verbatim>\<open>New2QParamsG(2, 1.0, 1.0)\<close> has become after
  \<^verbatim>\<open>Add(1, 10); Add(2, 20); Add(3, 30); Add(1, 11); Get(2)\<close>: it holds three entries, and
  its frequent pool is at its capacity.
\<close>

definition cache_2_1_1_over :: "(nat, int) TwoQueueCacheG" where
  "cache_2_1_1_over =
     \<lparr>size_2q = 2, recentSize = 2,
      recent = \<lparr>size_lru = 2, items = [(3, 30)], onEvict = False, onEvict_calls = []\<rparr>,
      frequent = \<lparr>size_lru = 2, items = [(1, 11), (2, 20)], onEvict = False, onEvict_calls = []\<rparr>,
      recentEvict = \<lparr>size_lru = 2, items = [], onEvict = False, onEvict_calls = []\<rparr>\<rparr>"

text \<open>
  The cache that \<^verbatim>\<open>New2QParamsG(4, 0.25, 0.5)\<close> returns (the default ratios), with
  \<^verbatim>\<open>int\<close> keys and values; its state after \<^verbatim>\<open>Add(1, 10); Add(2, 20); Add(3, 30); Add(4, 40)\<close>;
  and its state after one more call, \<^verbatim>\<open>Add(5, 50)\<close>, which has turned key 1 into a ghost.
\<close>

definition cache_4 :: "(nat, int) TwoQueueCacheG" where
  "cache_4 =
     \<lparr>size_2q = 4, recentSize = 1,
      recent = \<lparr>size_lru = 4, items = [], onEvict = False, onEvict_calls = []\<rparr>,
      frequent = \<lparr>size_lru = 4, items = [], onEvict = False, onEvict_calls = []\<rparr>,
      recentEvict = \<lparr>size_lru = 2, items = [], onEvict = False, onEvict_calls = []\<rparr>\<rparr>"

definition cache_4_full :: "(nat, int) TwoQueueCacheG" where
  "cache_4_full =
     \<lparr>size_2q = 4, recentSize = 1,
      recent = \<lparr>size_lru = 4, items = [(1, 10), (2, 20), (3, 30), (4, 40)],
                onEvict = False, onEvict_calls = []\<rparr>,
      frequent = \<lparr>size_lru = 4, items = [], onEvict = False, onEvict_calls = []\<rparr>,
      recentEvict = \<lparr>size_lru = 2, items = [], onEvict = False, onEvict_calls = []\<rparr>\<rparr>"

definition cache_4_ghost :: "(nat, int) TwoQueueCacheG" where
  "cache_4_ghost =
     \<lparr>size_2q = 4, recentSize = 1,
      recent = \<lparr>size_lru = 4, items = [(2, 20), (3, 30), (4, 40), (5, 50)],
                onEvict = False, onEvict_calls = []\<rparr>,
      frequent = \<lparr>size_lru = 4, items = [], onEvict = False, onEvict_calls = []\<rparr>,
      recentEvict = \<lparr>size_lru = 2, items = [(1, 0)], onEvict = False, onEvict_calls = []\<rparr>\<rparr>"

subsection \<open>The test of \<^verbatim>\<open>ensureSpace\<close>\<close>

text \<open>
  The condition under which \<^verbatim>\<open>ensureSpace\<close> takes its victim from the recent pool: the
  cache is full, recent is not empty, and recent is above its share, or exactly at its
  share while the caller is not re-admitting a ghost.
\<close>

definition evicts_recent :: "bool \<Rightarrow> ('k, 'v) TwoQueueCacheG \<Rightarrow> bool" where
  "evicts_recent hint c \<longleftrightarrow>
     size_2q c \<le> LRUG_Len (recent c) + LRUG_Len (frequent c) \<and>
     0 < LRUG_Len (recent c) \<and>
     (recentSize c < LRUG_Len (recent c) \<or> (LRUG_Len (recent c) = recentSize c \<and> \<not> hint))"

section \<open>Facts about the ordered map\<close>

lemma keys_omap_Delete: "map fst (omap_Delete m k) = filter (\<lambda>x. x \<noteq> k) (map fst m)"
  by (induction m) (auto simp: omap_Delete_def)

lemma set_keys_omap_Delete: "fst ` set (omap_Delete m k) = fst ` set m - {k}"
  by (auto simp: omap_Delete_def)

lemma distinct_omap_Delete: "distinct (map fst m) \<Longrightarrow> distinct (map fst (omap_Delete m k))"
  by (simp add: keys_omap_Delete)

lemma map_of_omap_Delete: "map_of (omap_Delete m k) = (map_of m)(k := None)"
  by (induction m) (auto simp: omap_Delete_def)

lemma omap_Delete_absent: "k \<notin> fst ` set m \<Longrightarrow> omap_Delete m k = m"
  by (induction m) (auto simp: omap_Delete_def)

lemma omap_Delete_hd:
  "distinct (map fst (e # m)) \<Longrightarrow> omap_Delete (e # m) (fst e) = m"
  by (simp add: omap_Delete_def) (metis (mono_tags, lifting) filter_True image_eqI)

lemma keys_omap_Set:
  "map fst (omap_Set m k v) = (if k \<in> fst ` set m then map fst m else map fst m @ [k])"
  by (induction m) auto

lemma map_of_omap_Set: "map_of (omap_Set m k v) = (map_of m)(k \<mapsto> v)"
  by (induction m) (auto simp: fun_eq_iff)

lemma omap_Set_absent: "k \<notin> fst ` set m \<Longrightarrow> omap_Set m k v = m @ [(k, v)]"
  by (induction m) auto

lemma omap_Set_last: "k \<notin> fst ` set m \<Longrightarrow> omap_Set (m @ [(k, w)]) k v = m @ [(k, v)]"
  by (induction m) auto

lemma length_omap_Set:
  "length (omap_Set m k v) = (if k \<in> fst ` set m then length m else Suc (length m))"
  by (induction m) auto

lemma omap_GetAt_0: "omap_GetAt m 0 = (case m of [] \<Rightarrow> None | e # _ \<Rightarrow> Some e)"
  by (cases m) (auto simp: omap_GetAt_def)

lemma map_of_None_iff: "map_of m k = None \<longleftrightarrow> k \<notin> fst ` set m"
  by (simp add: map_of_eq_None_iff)

section \<open>Facts about the bounded ordered cache\<close>

lemma items_removeElement: "items (removeElement k c) = omap_Delete (items c) k"
  by (auto simp: removeElement_def omap_Pop_def omap_Delete_absent map_of_None_iff
           split: option.splits)

lemma size_lru_removeElement: "size_lru (removeElement k c) = size_lru c"
  by (simp add: removeElement_def omap_Pop_def split: option.splits)

lemma onEvict_removeElement: "onEvict (removeElement k c) = onEvict c"
  by (simp add: removeElement_def omap_Pop_def split: option.splits)

lemma calls_removeElement:
  "onEvict_calls (removeElement k c) =
     (case map_of (items c) k of
        Some v \<Rightarrow> if onEvict c then onEvict_calls c @ [(k, v)] else onEvict_calls c
      | None \<Rightarrow> onEvict_calls c)"
  by (simp add: removeElement_def omap_Pop_def split: option.splits)

lemma items_removeOldest:
  "distinct (map fst (items c)) \<Longrightarrow> items (removeOldest c) = tl (items c)"
  by (cases "items c")
     (simp_all add: removeOldest_def omap_GetAt_0 items_removeElement omap_Delete_hd)

lemma size_lru_removeOldest: "size_lru (removeOldest c) = size_lru c"
  by (simp add: removeOldest_def size_lru_removeElement split: option.splits)

lemma onEvict_removeOldest: "onEvict (removeOldest c) = onEvict c"
  by (simp add: removeOldest_def onEvict_removeElement split: option.splits)

lemma calls_removeOldest:
  "distinct (map fst (items c)) \<Longrightarrow> onEvict_calls (removeOldest c) =
     (case items c of
        [] \<Rightarrow> onEvict_calls c
      | e # _ \<Rightarrow> if onEvict c then onEvict_calls c @ [e] else onEvict_calls c)"
  by (cases "items c")
     (auto simp: removeOldest_def omap_GetAt_0 calls_removeElement)

lemma omap_Set_after_ToTail:
  "omap_Set (case omap_Get m k of Some _ \<Rightarrow> omap_ToTail m k | None \<Rightarrow> m) k v
     = omap_Delete m k @ [(k, v)]"
proof (cases "map_of m k")
  case None
  then have "k \<notin> fst ` set m" by (simp add: map_of_None_iff)
  with None show ?thesis
    by (simp add: omap_Get_def omap_Set_absent omap_Delete_absent)
next
  case (Some w)
  have "k \<notin> fst ` set (omap_Delete m k)" by (simp add: set_keys_omap_Delete)
  then have "omap_Set (omap_Delete m k @ [(k, w)]) k v = omap_Delete m k @ [(k, v)]"
    by (rule omap_Set_last)
  with Some show ?thesis by (simp add: omap_Get_def omap_ToTail_def)
qed

lemma LRUG_Add_unfold:
  "LRUG_Add k v c =
     (let c2 = c\<lparr>items := omap_Delete (items c) k @ [(k, v)]\<rparr>
      in if int (length (items c2)) > size_lru c then (True, removeOldest c2) else (False, c2))"
  by (simp add: LRUG_Add_def Let_def omap_Set_after_ToTail omap_Len_def)

lemma distinct_Delete_snoc:
  "distinct (map fst m) \<Longrightarrow> distinct (map fst (omap_Delete m k @ [(k, v)]))"
  by (simp add: keys_omap_Delete)

lemma items_LRUG_Add:
  "distinct (map fst (items c)) \<Longrightarrow>
   items (snd (LRUG_Add k v c)) =
     (let m = omap_Delete (items c) k @ [(k, v)]
      in if int (length m) > size_lru c then tl m else m)"
  using distinct_Delete_snoc[of "items c" k v]
  by (simp add: LRUG_Add_unfold Let_def items_removeOldest del: map_append)

lemma size_lru_LRUG_Add: "size_lru (snd (LRUG_Add k v c)) = size_lru c"
  by (simp add: LRUG_Add_unfold Let_def size_lru_removeOldest)

lemma onEvict_LRUG_Add: "onEvict (snd (LRUG_Add k v c)) = onEvict c"
  by (simp add: LRUG_Add_unfold Let_def onEvict_removeOldest)

lemma items_LRUG_Get:
  "items (snd (LRUG_Get k c)) =
     (case map_of (items c) k of None \<Rightarrow> items c | Some v \<Rightarrow> omap_Delete (items c) k @ [(k, v)])"
  by (simp add: LRUG_Get_def LRUG_Peek_def omap_Get_def omap_ToTail_def split: option.splits)

lemma fst_LRUG_Get: "fst (LRUG_Get k c) = map_of (items c) k"
  by (simp add: LRUG_Get_def LRUG_Peek_def omap_Get_def split: option.splits)

lemma size_lru_LRUG_Get: "size_lru (snd (LRUG_Get k c)) = size_lru c"
  by (simp add: LRUG_Get_def split: option.splits)

lemma items_LRUG_Remove: "items (snd (LRUG_Remove k c)) = omap_Delete (items c) k"
  by (auto simp: LRUG_Remove_def LRUG_Peek_def omap_Get_def items_removeElement
        omap_Delete_absent map_of_None_iff split: option.splits)

lemma fst_LRUG_Remove: "fst (LRUG_Remove k c) = (k \<in> fst ` set (items c))"
proof (cases "map_of (items c) k")
  case None
  then show ?thesis
    by (simp add: LRUG_Remove_def LRUG_Peek_def omap_Get_def map_of_None_iff[symmetric])
next
  case (Some v)
  then have "k \<in> fst ` set (items c)"
    using map_of_None_iff[of "items c" k] by simp
  with Some show ?thesis
    by (simp add: LRUG_Remove_def LRUG_Peek_def omap_Get_def)
qed

lemma size_lru_LRUG_Remove: "size_lru (snd (LRUG_Remove k c)) = size_lru c"
  by (simp add: LRUG_Remove_def size_lru_removeElement split: option.splits)

lemma items_LRUG_RemoveOldest:
  "distinct (map fst (items c)) \<Longrightarrow> items (snd (LRUG_RemoveOldest c)) = tl (items c)"
  by (cases "items c")
     (simp_all add: LRUG_RemoveOldest_def omap_GetAt_0 items_removeElement omap_Delete_hd)

lemma fst_LRUG_RemoveOldest:
  "fst (LRUG_RemoveOldest c) = (case items c of [] \<Rightarrow> None | e # _ \<Rightarrow> Some e)"
  by (simp add: LRUG_RemoveOldest_def omap_GetAt_0 split: list.splits)

lemma size_lru_LRUG_RemoveOldest: "size_lru (snd (LRUG_RemoveOldest c)) = size_lru c"
  by (simp add: LRUG_RemoveOldest_def size_lru_removeElement split: option.splits)

lemma fold_Purge_step_items:
  "items (fold LRUG_Purge_step xs c) = filter (\<lambda>e. fst e \<notin> fst ` set xs) (items c)"
proof (induction xs arbitrary: c)
  case Nil
  show ?case by simp
next
  case (Cons x xs)
  show ?case
    by (simp add: Cons.IH) (auto simp: LRUG_Purge_step_def omap_Delete_def intro: filter_cong)
qed

lemma fold_Purge_step_size: "size_lru (fold LRUG_Purge_step xs c) = size_lru c"
  by (induction xs arbitrary: c) (simp_all add: LRUG_Purge_step_def)

lemma items_LRUG_Purge: "items (LRUG_Purge c) = []"
  by (simp add: LRUG_Purge_def omap_Items_def fold_Purge_step_items)

lemma size_lru_LRUG_Purge: "size_lru (LRUG_Purge c) = size_lru c"
  by (simp add: LRUG_Purge_def fold_Purge_step_size)

lemma LRUG_Contains_iff: "LRUG_Contains k c \<longleftrightarrow> k \<in> fst ` set (items c)"
  by (simp add: LRUG_Contains_def omap_Get_def map_of_None_iff)

lemma LRUG_Keys_items: "LRUG_Keys c = map fst (items c)"
  by (simp add: LRUG_Keys_def omap_Keys_def)

lemma LRUG_Len_items: "LRUG_Len c = int (length (items c))"
  by (simp add: LRUG_Len_def omap_Len_def)

lemma LRUG_Peek_items: "LRUG_Peek k c = map_of (items c) k"
  by (simp add: LRUG_Peek_def omap_Get_def)

lemma set_tl_subset: "set (tl xs) \<subseteq> set xs"
  by (cases xs) auto

lemma map_of_snoc_absent: "k \<notin> fst ` set m \<Longrightarrow> map_of (m @ [(k, v)]) k = Some v"
  by (induction m) auto

lemma map_of_snoc_other: "k' \<noteq> k \<Longrightarrow> map_of (m @ [(k, v)]) k' = map_of m k'"
  by (induction m) auto

lemma keys_tl_subset: "fst ` set (tl m) \<subseteq> fst ` set m"
  by (rule image_mono[OF set_tl_subset])

lemma keys_LRUG_Add:
  assumes "distinct (map fst (items c))"
  shows "distinct (map fst (items (snd (LRUG_Add k v c))))"
    and "fst ` set (items (snd (LRUG_Add k v c))) \<subseteq> insert k (fst ` set (items c))"
proof -
  let ?m = "omap_Delete (items c) k @ [(k, v)]"
  have d: "distinct (map fst ?m)" using assms by (rule distinct_Delete_snoc)
  have s: "fst ` set ?m \<subseteq> insert k (fst ` set (items c))"
    by (auto simp: omap_Delete_def)
  have i: "items (snd (LRUG_Add k v c)) = (if int (length ?m) > size_lru c then tl ?m else ?m)"
    using items_LRUG_Add[OF assms, of k v] by (simp add: Let_def)
  show "distinct (map fst (items (snd (LRUG_Add k v c))))"
    using d by (simp add: i distinct_tl map_tl del: map_append)
  show "fst ` set (items (snd (LRUG_Add k v c))) \<subseteq> insert k (fst ` set (items c))"
  proof (cases "int (length ?m) > size_lru c")
    case True
    then have "items (snd (LRUG_Add k v c)) = tl ?m" using i by simp
    then have "fst ` set (items (snd (LRUG_Add k v c))) \<subseteq> fst ` set ?m"
      using keys_tl_subset[of ?m] by (simp only:)
    then show ?thesis using s by (rule subset_trans)
  next
    case False
    then have "items (snd (LRUG_Add k v c)) = ?m" using i by simp
    then show ?thesis using s by (simp only:)
  qed
qed

lemma LRUG_Add_has_key:
  assumes "distinct (map fst (items c))" and "0 < size_lru c"
  shows "map_of (items (snd (LRUG_Add k v c))) k = Some v"
proof -
  let ?d = "omap_Delete (items c) k"
  let ?m = "?d @ [(k, v)]"
  have nk: "k \<notin> fst ` set ?d" by (simp add: set_keys_omap_Delete)
  have i: "items (snd (LRUG_Add k v c)) = (if int (length ?m) > size_lru c then tl ?m else ?m)"
    using items_LRUG_Add[OF assms(1), of k v] by (simp add: Let_def)
  have full: "map_of ?m k = Some v"
    using nk by (rule map_of_snoc_absent)
  show ?thesis
  proof (cases "int (length ?m) > size_lru c")
    case False
    with i full show ?thesis by simp
  next
    case True
    with assms(2) have "?d \<noteq> []" by auto
    then obtain e d' where de: "?d = e # d'" by (cases ?d) auto
    with nk have nk': "k \<notin> fst ` set d'" by auto
    have "tl ?m = d' @ [(k, v)]" by (simp add: de)
    moreover have "map_of (d' @ [(k, v)]) k = Some v"
      using nk' by (rule map_of_snoc_absent)
    ultimately show ?thesis using True i by simp
  qed
qed

lemma keys_LRUG_Remove:
  "fst ` set (items (snd (LRUG_Remove k c))) = fst ` set (items c) - {k}"
  "distinct (map fst (items c)) \<Longrightarrow> distinct (map fst (items (snd (LRUG_Remove k c))))"
  by (simp_all add: items_LRUG_Remove set_keys_omap_Delete distinct_omap_Delete)

lemma keys_LRUG_RemoveOldest:
  assumes "distinct (map fst (items c))"
  shows "distinct (map fst (items (snd (LRUG_RemoveOldest c))))"
    and "fst ` set (items (snd (LRUG_RemoveOldest c))) \<subseteq> fst ` set (items c)"
  using assms keys_tl_subset[of "items c"]
  by (simp_all add: items_LRUG_RemoveOldest distinct_tl map_tl)

lemma keys_LRUG_Get:
  "fst ` set (items (snd (LRUG_Get k c))) = fst ` set (items c)"
  "distinct (map fst (items c)) \<Longrightarrow> distinct (map fst (items (snd (LRUG_Get k c))))"
proof -
  show "fst ` set (items (snd (LRUG_Get k c))) = fst ` set (items c)"
  proof (cases "map_of (items c) k")
    case None
    then show ?thesis by (simp add: items_LRUG_Get)
  next
    case (Some v)
    then have "k \<in> fst ` set (items c)" using map_of_None_iff[of "items c" k] by simp
    with Some show ?thesis by (auto simp: items_LRUG_Get omap_Delete_def)
  qed
  show "distinct (map fst (items c)) \<Longrightarrow> distinct (map fst (items (snd (LRUG_Get k c))))"
    by (cases "map_of (items c) k") (simp_all add: items_LRUG_Get keys_omap_Delete)
qed

section \<open>Construction of the two-queue cache\<close>

text \<open>
  Claim C3, as the spec states it: construction fails exactly when the size is not positive
  or a ratio is outside [0, 1], and a ghost capacity of zero is legal. The code does not
  behave so: \<^verbatim>\<open>New2QParamsG(4, 0.25, 0.0)\<close> passes the three checks, computes the ghost
  capacity \<^verbatim>\<open>int(4 * 0.0) = 0\<close>, and \<^verbatim>\<open>NewLRUG(0, nil)\<close> refuses it; the error is returned.
\<close>

theorem New2QParamsG_zero_ghost_capacity_fails:
  "float_to_int int_indefinite (fmul_exact 4 0) = 0 \<and>
   (New2QParamsG fmul_exact int_indefinite 4 (1 / 4) 0 :: error + (nat, int) TwoQueueCacheG) = Inl NotPositiveSize"
  by (simp add: New2QParamsG_def NewLRUG_def fmul_exact_def float_to_int_def truncate_rat_def)

text \<open>
  Claim C3, amended: construction fails exactly when the size is not positive, or a ratio
  is outside [0, 1], or the ghost capacity \<^verbatim>\<open>int(float64(size) * ghostRatio)\<close> is not
  positive; in every other case it returns the cache with the given size, the recent size
  \<^verbatim>\<open>int(float64(size) * recentRatio)\<close>, and three empty pools of capacities size, size and
  the ghost capacity. This holds whatever the rounding of the product is, and whatever the
  conversion returns for a product outside the range of \<^verbatim>\<open>int\<close>: with size
  \<^verbatim>\<open>math.MaxInt64\<close> and both ratios 1.0 the products are \<^verbatim>\<open>2^63\<close>, and where the conversion
  gives the smallest \<^verbatim>\<open>int\<close> for them, construction fails.
\<close>

theorem New2QParamsG_fails_iff:
  "(if sz \<le> 0 \<or> rr < 0 \<or> 1 < rr \<or> gr < 0 \<or> 1 < gr \<or> float_to_int oor (fmul sz gr) \<le> 0
    then isl (New2QParamsG fmul oor sz rr gr :: error + ('k, 'v) TwoQueueCacheG)
    else (New2QParamsG fmul oor sz rr gr :: error + ('k, 'v) TwoQueueCacheG) =
           Inr \<lparr>size_2q = sz, recentSize = float_to_int oor (fmul sz rr),
                recent = \<lparr>size_lru = sz, items = [], onEvict = False, onEvict_calls = []\<rparr>,
                frequent = \<lparr>size_lru = sz, items = [], onEvict = False, onEvict_calls = []\<rparr>,
                recentEvict = \<lparr>size_lru = float_to_int oor (fmul sz gr), items = [],
                               onEvict = False, onEvict_calls = []\<rparr>\<rparr>)"
  by (simp add: New2QParamsG_def NewLRUG_def omap_New_def Let_def)

theorem New2QParamsG_fails_iff_witness:
  "(New2QParamsG fmul_exact int_indefinite 4 (1 / 4) (1 / 2) :: error + (nat, int) TwoQueueCacheG) =
     Inr \<lparr>size_2q = 4, recentSize = 1,
          recent = \<lparr>size_lru = 4, items = [], onEvict = False, onEvict_calls = []\<rparr>,
          frequent = \<lparr>size_lru = 4, items = [], onEvict = False, onEvict_calls = []\<rparr>,
          recentEvict = \<lparr>size_lru = 2, items = [], onEvict = False, onEvict_calls = []\<rparr>\<rparr>
   \<and> isl (New2QParamsG fmul_exact int_indefinite 0 (1 / 4) (1 / 2)
            :: error + (nat, int) TwoQueueCacheG)
   \<and> float_to_int int_indefinite (fmul_MaxInt64 (2 ^ 63 - 1) 1) = - (2 ^ 63)
   \<and> isl (New2QParamsG fmul_MaxInt64 int_indefinite (2 ^ 63 - 1) 1 1
            :: error + (nat, int) TwoQueueCacheG)"
proof -
  have a: "float_to_int int_indefinite (fmul_exact 4 (1 / 4)) = 1"
    and b: "float_to_int int_indefinite (fmul_exact 4 (1 / 2)) = 2"
    and c: "float_to_int int_indefinite (fmul_MaxInt64 (2 ^ 63 - 1) 1) = - (2 ^ 63)"
    by (simp_all add: fmul_exact_def fmul_MaxInt64_def float_to_int_def truncate_rat_def
          int_indefinite_def)
  note t1 = New2QParamsG_fails_iff
              [where sz = 4 and rr = "1 / 4" and gr = "1 / 2" and fmul = fmul_exact
                 and oor = int_indefinite and ?'k = nat and ?'v = int]
  note t2 = New2QParamsG_fails_iff
              [where sz = 0 and rr = "1 / 4" and gr = "1 / 2" and fmul = fmul_exact
                 and oor = int_indefinite and ?'k = nat and ?'v = int]
  note t3 = New2QParamsG_fails_iff
              [where sz = "2 ^ 63 - 1" and rr = 1 and gr = 1 and fmul = fmul_MaxInt64
                 and oor = int_indefinite and ?'k = nat and ?'v = int]
  from t1 a b have 1:
    "(New2QParamsG fmul_exact int_indefinite 4 (1 / 4) (1 / 2) :: error + (nat, int) TwoQueueCacheG) =
       Inr \<lparr>size_2q = 4, recentSize = 1,
            recent = \<lparr>size_lru = 4, items = [], onEvict = False, onEvict_calls = []\<rparr>,
            frequent = \<lparr>size_lru = 4, items = [], onEvict = False, onEvict_calls = []\<rparr>,
            recentEvict = \<lparr>size_lru = 2, items = [], onEvict = False, onEvict_calls = []\<rparr>\<rparr>"
    by simp
  from t2 have 2:
    "isl (New2QParamsG fmul_exact int_indefinite 0 (1 / 4) (1 / 2)
            :: error + (nat, int) TwoQueueCacheG)"
    by simp
  from t3 c have 3:
    "isl (New2QParamsG fmul_MaxInt64 int_indefinite (2 ^ 63 - 1) 1 1
            :: error + (nat, int) TwoQueueCacheG)"
    by simp
  from 1 2 3 c show ?thesis by blast
qed

section \<open>A full cache whose recent pool has the whole capacity\<close>

text \<open>
  Claim C1 says that \<^verbatim>\<open>ensureSpace\<close>, called when recent and frequent together hold size
  entries or more, evicts exactly one entry. With \<^verbatim>\<open>New2QParamsG(2, 1.0, 1.0)\<close> the recent
  size equals the size. After \<^verbatim>\<open>Add(1, 10); Add(2, 20); Add(3, 30)\<close> recent holds the keys
  2 and 3, frequent is empty and key 1 is a ghost. \<^verbatim>\<open>Add(1, _)\<close> then calls
  \<^verbatim>\<open>ensureSpace(true)\<close> on this state: the cache is full, the test on recent fails
  (its length equals the recent size and the hint is true), \<^verbatim>\<open>frequent.RemoveOldest()\<close>
  finds nothing to remove, and the state is returned as it was.
\<close>

theorem ensureSpace_evicts_nothing_example:
  "New2QParamsG fmul_exact int_indefinite 2 1 1 = Inr cache_2_1_1
   \<and> twoq_run [OpAdd 1 10, OpAdd 2 20, OpAdd 3 30] cache_2_1_1 = cache_2_1_1_full
   \<and> size_2q cache_2_1_1_full
        \<le> LRUG_Len (recent cache_2_1_1_full) + LRUG_Len (frequent cache_2_1_1_full)
   \<and> ensureSpace True cache_2_1_1_full = cache_2_1_1_full"
  by code_simp

text \<open>
  Claim C2 says that after every public operation recent and frequent together hold at
  most size entries. On the same cache the fourth call, \<^verbatim>\<open>Add(1, 11)\<close>, inserts the
  returning ghost into frequent after \<^verbatim>\<open>ensureSpace(true)\<close> has evicted nothing: the cache
  of size 2 then holds 3 entries.
\<close>

theorem TwoQ_Len_exceeds_size_example:
  "New2QParamsG fmul_exact int_indefinite 2 1 1 = Inr cache_2_1_1
   \<and> TwoQ_Len (twoq_run [OpAdd 1 10, OpAdd 2 20, OpAdd 3 30, OpAdd 1 11] cache_2_1_1) = 3
   \<and> size_2q (twoq_run [OpAdd 1 10, OpAdd 2 20, OpAdd 3 30, OpAdd 1 11] cache_2_1_1) = 2"
  by code_simp

section \<open>The bounded ordered cache: capacity, resizing, recency\<close>

lemma Resize_loop_fields:
  "distinct (map fst (items c)) \<Longrightarrow>
     items (Resize_loop n c) = drop n (items c) \<and>
     size_lru (Resize_loop n c) = size_lru c \<and>
     onEvict (Resize_loop n c) = onEvict c \<and>
     onEvict_calls (Resize_loop n c) =
       onEvict_calls c @ (if onEvict c then take n (items c) else [])"
proof (induction n arbitrary: c)
  case 0
  show ?case by simp
next
  case (Suc n)
  have d: "distinct (map fst (items (removeOldest c)))"
    using Suc.prems by (simp add: items_removeOldest distinct_tl map_tl)
  show ?case
  proof (cases "items c")
    case Nil
    with Suc.IH[OF d] Suc.prems show ?thesis
      by (simp add: items_removeOldest size_lru_removeOldest onEvict_removeOldest
            calls_removeOldest)
  next
    case (Cons e m)
    with Suc.IH[OF d] Suc.prems show ?thesis
      by (simp add: items_removeOldest size_lru_removeOldest onEvict_removeOldest
            calls_removeOldest)
  qed
qed

lemma distinct_lru_step:
  "distinct (map fst (items c)) \<Longrightarrow> distinct (map fst (items (lru_step x c)))"
proof (cases x)
  case (LResize n)
  assume d: "distinct (map fst (items c))"
  show ?thesis using d Resize_loop_fields[OF d]
    by (simp add: LResize LRUG_Resize_def Let_def distinct_drop flip: drop_map)
qed (simp_all add: keys_LRUG_Add keys_LRUG_Get keys_LRUG_Remove keys_LRUG_RemoveOldest
      items_LRUG_Purge)

lemma distinct_lru_run:
  "distinct (map fst (items c)) \<Longrightarrow> distinct (map fst (items (lru_run ops c)))"
  unfolding lru_run_def by (induction ops arbitrary: c) (simp_all add: distinct_lru_step)

lemma NewLRUG_Inr:
  "NewLRUG C cb = Inr c \<Longrightarrow>
     0 < C \<and> c = \<lparr>size_lru = C, items = [], onEvict = cb, onEvict_calls = []\<rparr>"
  by (auto simp: NewLRUG_def omap_New_def split: if_splits)

lemma distinct_reachable_lru:
  "NewLRUG C cb = Inr c0 \<Longrightarrow> distinct (map fst (items (lru_run ops c0)))"
  by (rule distinct_lru_run) (auto dest: NewLRUG_Inr)

lemma length_omap_Delete_present:
  "distinct (map fst m) \<Longrightarrow> k \<in> fst ` set m \<Longrightarrow> Suc (length (omap_Delete m k)) = length m"
proof (induction m)
  case Nil
  then show ?case by simp
next
  case (Cons e m)
  show ?case
  proof (cases "fst e = k")
    case True
    with Cons.prems have "omap_Delete (e # m) k = m"
      using omap_Delete_hd[of e m] by simp
    then show ?thesis by simp
  next
    case False
    with Cons.prems have "k \<in> fst ` set m" by auto
    with Cons have "Suc (length (omap_Delete m k)) = length m" by simp
    with False show ?thesis by (simp add: omap_Delete_def)
  qed
qed



lemma length_omap_Delete_le: "length (omap_Delete m k) \<le> length m"
  by (simp add: omap_Delete_def)



lemma Len_minus_size_nonneg: "0 \<le> n \<Longrightarrow> Len_minus_size len n = len - n"
  by (simp add: Len_minus_size_def)

lemma LRUG_Resize_unfold:
  "LRUG_Resize n c =
     (max (Len_minus_size (LRUG_Len c) n) 0,
      (Resize_loop (nat (Len_minus_size (LRUG_Len c) n)) c)\<lparr>size_lru := n\<rparr>)"
  by (simp add: LRUG_Resize_def Let_def max_def)








lemma LRUG_Get_hit:
  assumes "LRUG_Peek k c = Some v"
  shows "LRUG_Get k c = (Some v, c\<lparr>items := omap_Delete (items c) k @ [(k, v)]\<rparr>)"
  using assms by (simp add: LRUG_Get_def LRUG_Peek_def omap_Get_def omap_ToTail_def)

lemma map_of_move_to_tail:
  assumes "map_of m k = Some v"
  shows "map_of (omap_Delete m k @ [(k, v)]) k' = map_of m k'"
proof (cases "k' = k")
  case True
  have "k \<notin> fst ` set (omap_Delete m k)" by (simp add: set_keys_omap_Delete)
  then have "map_of (omap_Delete m k @ [(k, v)]) k = Some v" by (rule map_of_snoc_absent)
  with True assms show ?thesis by simp
next
  case False
  then have "map_of (omap_Delete m k @ [(k, v)]) k' = map_of (omap_Delete m k) k'"
    by (rule map_of_snoc_other)
  with False show ?thesis by (simp only: map_of_omap_Delete) simp
qed

text \<open>
  \<^verbatim>\<open>Resize\<close> with a negative capacity empties the cache, unless the subtraction wraps
  around: after three calls of \<^verbatim>\<open>Add\<close>, \<^verbatim>\<open>Resize(math.MinInt64)\<close> evicts nothing, returns 0
  and leaves three entries in a cache whose capacity is negative.
\<close>

lemma LRUG_Resize_MinInt64_example:
  "LRUG_Resize (- (2 ^ 63))
     \<lparr>size_lru = 3, items = [(1::nat, 10::int), (2, 20), (3, 30)], onEvict = True, onEvict_calls = []\<rparr>
   = (0, \<lparr>size_lru = - (2 ^ 63), items = [(1, 10), (2, 20), (3, 30)], onEvict = True,
           onEvict_calls = []\<rparr>)
   \<and> LRUG_Resize (- 1)
     \<lparr>size_lru = 3, items = [(1::nat, 10::int), (2, 20), (3, 30)], onEvict = True, onEvict_calls = []\<rparr>
   = (4, \<lparr>size_lru = - 1, items = [], onEvict = True,
           onEvict_calls = [(1, 10), (2, 20), (3, 30)]\<rparr>)"
  by code_simp



text \<open>
  Claim C7: on a bounded ordered cache holding \<open>m\<close> entries, \<^verbatim>\<open>Resize(n)\<close> with a capacity
  \<open>n \<ge> 0\<close> returns \<open>max (m - n) 0\<close>, leaves \<open>min m n\<close> entries, and removes the \<open>m - n\<close>
  oldest entries, oldest first: the entries left are the old ones without their first
  \<open>m - n\<close>, and the callback is called with these \<open>m - n\<close> in their order.
\<close>

theorem LRUG_Resize_evicts_oldest_first:
  assumes new: "NewLRUG C cb = Inr c0" and n: "0 \<le> n"
  shows "fst (LRUG_Resize n (lru_run ops c0)) = max (LRUG_Len (lru_run ops c0) - n) 0
       \<and> LRUG_Len (snd (LRUG_Resize n (lru_run ops c0))) = min (LRUG_Len (lru_run ops c0)) n
       \<and> items (snd (LRUG_Resize n (lru_run ops c0)))
           = drop (nat (LRUG_Len (lru_run ops c0) - n)) (items (lru_run ops c0))
       \<and> onEvict_calls (snd (LRUG_Resize n (lru_run ops c0)))
           = onEvict_calls (lru_run ops c0)
             @ (if onEvict (lru_run ops c0)
                then take (nat (LRUG_Len (lru_run ops c0) - n)) (items (lru_run ops c0))
                else [])"
proof -
  let ?c = "lru_run ops c0"
  let ?d = "nat (LRUG_Len ?c - n)"
  have d: "distinct (map fst (items ?c))" using new by (rule distinct_reachable_lru)
  have r: "LRUG_Resize n ?c = (max (LRUG_Len ?c - n) 0, (Resize_loop ?d ?c)\<lparr>size_lru := n\<rparr>)"
    by (simp add: LRUG_Resize_unfold Len_minus_size_nonneg[OF n])
  note f = Resize_loop_fields[OF d, of ?d]
  have i: "items (snd (LRUG_Resize n ?c)) = drop ?d (items ?c)"
    using f by (simp add: r)
  have e: "onEvict_calls (snd (LRUG_Resize n ?c))
             = onEvict_calls ?c @ (if onEvict ?c then take ?d (items ?c) else [])"
    using f by (simp add: r)
  have "int (length (drop ?d (items ?c))) = min (LRUG_Len ?c) n"
    using n by (simp add: LRUG_Len_items)
  then have l: "LRUG_Len (snd (LRUG_Resize n ?c)) = min (LRUG_Len ?c) n"
    by (simp add: LRUG_Len_items i)
  have "fst (LRUG_Resize n ?c) = max (LRUG_Len ?c - n) 0" by (simp add: r)
  with l i e show ?thesis by blast
qed

theorem LRUG_Resize_evicts_oldest_first_witness:
  "(NewLRUG 3 True :: error + (nat, int) LRUG)
     = Inr \<lparr>size_lru = 3, items = [], onEvict = True, onEvict_calls = []\<rparr>
   \<and> lru_run [LAdd 1 10, LAdd 2 20, LAdd 3 30] \<lparr>size_lru = 3, items = [], onEvict = True, onEvict_calls = []\<rparr>
       = \<lparr>size_lru = 3, items = [(1::nat, 10::int), (2, 20), (3, 30)], onEvict = True, onEvict_calls = []\<rparr>
   \<and> (0::int) \<le> 1
   \<and> LRUG_Resize 1 \<lparr>size_lru = 3, items = [(1::nat, 10::int), (2, 20), (3, 30)], onEvict = True, onEvict_calls = []\<rparr>
       = (2, \<lparr>size_lru = 1, items = [(3, 30)], onEvict = True, onEvict_calls = [(1, 10), (2, 20)]\<rparr>)"
proof -
  let ?emp = "\<lparr>size_lru = 3, items = [], onEvict = True, onEvict_calls = []\<rparr> :: (nat, int) LRUG"
  let ?full = "\<lparr>size_lru = 3, items = [(1::nat, 10::int), (2, 20), (3, 30)], onEvict = True, onEvict_calls = []\<rparr>"
  have new: "NewLRUG 3 True = Inr ?emp" by (simp add: NewLRUG_def omap_New_def)
  have run: "lru_run [LAdd 1 10, LAdd 2 20, LAdd 3 30] ?emp = ?full" by code_simp
  have sz: "size_lru (snd (LRUG_Resize 1 ?full)) = 1"
    by (simp add: LRUG_Resize_unfold)
  have ev: "onEvict (snd (LRUG_Resize 1 ?full)) = True" by code_simp
  note t = LRUG_Resize_evicts_oldest_first[OF new, of 1 "[LAdd 1 10, LAdd 2 20, LAdd 3 30]"]
  have "LRUG_Resize 1 ?full = (2, \<lparr>size_lru = 1, items = [(3, 30)], onEvict = True, onEvict_calls = [(1, 10), (2, 20)]\<rparr>)"
    using t sz ev unfolding run
    by (cases "LRUG_Resize 1 ?full") (simp add: LRUG_Len_items)
  with new run show ?thesis by simp
qed

text \<open>
  Claim C8: \<^verbatim>\<open>Get(key)\<close> returns the value and found. On a hit the key moves to the
  most recently used position, every other key keeps its place and every value stays;
  on a miss nothing changes. So after \<^verbatim>\<open>Add(k1, v1); Add(k2, v2); Get(k1)\<close> on a new cache of
  capacity at least 2, with two different keys, \<^verbatim>\<open>Keys()\<close> is \<open>[k2, k1]\<close>.
\<close>

theorem LRUG_Get_promotes:
  "(LRUG_Peek k c = Some v \<longrightarrow>
      fst (LRUG_Get k c) = Some v
      \<and> LRUG_Keys (snd (LRUG_Get k c)) = filter (\<lambda>x. x \<noteq> k) (LRUG_Keys c) @ [k]
      \<and> (\<forall>k'. LRUG_Peek k' (snd (LRUG_Get k c)) = LRUG_Peek k' c))
   \<and> (LRUG_Peek k c = None \<longrightarrow> LRUG_Get k c = (None, c))
   \<and> (NewLRUG C cb = Inr c0 \<and> 2 \<le> C \<and> k1 \<noteq> k2 \<longrightarrow>
        LRUG_Keys (lru_run [LAdd k1 v1, LAdd k2 v2, LGet k1] c0) = [k2, k1])"
proof (intro conjI impI)
  assume hit: "LRUG_Peek k c = Some v"
  note g = LRUG_Get_hit[OF hit]
  have m: "map_of (items c) k = Some v" using hit by (simp add: LRUG_Peek_items)
  show "fst (LRUG_Get k c) = Some v" by (simp add: g)
  show "LRUG_Keys (snd (LRUG_Get k c)) = filter (\<lambda>x. x \<noteq> k) (LRUG_Keys c) @ [k]"
    by (simp add: g LRUG_Keys_items keys_omap_Delete)
  show "\<forall>k'. LRUG_Peek k' (snd (LRUG_Get k c)) = LRUG_Peek k' c"
    using map_of_move_to_tail[OF m] by (simp add: g LRUG_Peek_items)
next
  assume "LRUG_Peek k c = None"
  then show "LRUG_Get k c = (None, c)" by (simp add: LRUG_Get_def)
next
  assume a: "NewLRUG C cb = Inr c0 \<and> 2 \<le> C \<and> k1 \<noteq> k2"
  then have c0: "c0 = \<lparr>size_lru = C, items = [], onEvict = cb, onEvict_calls = []\<rparr>"
    by (auto dest: NewLRUG_Inr)
  from a have "2 \<le> C" and "k1 \<noteq> k2" and "k2 \<noteq> k1" by auto
  then show "LRUG_Keys (lru_run [LAdd k1 v1, LAdd k2 v2, LGet k1] c0) = [k2, k1]"
    by (simp add: lru_run_def c0 LRUG_Add_unfold Let_def omap_Delete_def LRUG_Get_def
          LRUG_Peek_def omap_Get_def omap_ToTail_def LRUG_Keys_items)
qed


theorem LRUG_Get_promotes_witness:
  "LRUG_Peek 1 \<lparr>size_lru = 2, items = [(1::nat, 10::int), (2, 20)], onEvict = False, onEvict_calls = []\<rparr>
     = Some 10
   \<and> LRUG_Get 1 \<lparr>size_lru = 2, items = [(1::nat, 10::int), (2, 20)], onEvict = False, onEvict_calls = []\<rparr>
     = (Some 10, \<lparr>size_lru = 2, items = [(2, 20), (1, 10)], onEvict = False, onEvict_calls = []\<rparr>)
   \<and> LRUG_Peek 3 \<lparr>size_lru = 2, items = [(1::nat, 10::int), (2, 20)], onEvict = False, onEvict_calls = []\<rparr>
     = None
   \<and> LRUG_Get 3 \<lparr>size_lru = 2, items = [(1::nat, 10::int), (2, 20)], onEvict = False, onEvict_calls = []\<rparr>
     = (None, \<lparr>size_lru = 2, items = [(1, 10), (2, 20)], onEvict = False, onEvict_calls = []\<rparr>)
   \<and> (NewLRUG 2 False :: error + (nat, int) LRUG)
     = Inr \<lparr>size_lru = 2, items = [], onEvict = False, onEvict_calls = []\<rparr>
   \<and> (2::int) \<le> 2 \<and> (1::nat) \<noteq> 2
   \<and> LRUG_Keys (lru_run [LAdd 1 10, LAdd 2 20, LGet 1]
        \<lparr>size_lru = 2, items = [], onEvict = False, onEvict_calls = [] :: (nat \<times> int) list\<rparr>) = [2, 1]"
proof -
  let ?st = "\<lparr>size_lru = 2, items = [(1::nat, 10::int), (2, 20)], onEvict = False, onEvict_calls = []\<rparr>"
  let ?emp = "\<lparr>size_lru = 2, items = [], onEvict = False, onEvict_calls = []\<rparr> :: (nat, int) LRUG"
  have p1: "LRUG_Peek 1 ?st = Some 10" and p3: "LRUG_Peek 3 ?st = None"
    by (simp_all add: LRUG_Peek_def omap_Get_def)
  have new: "NewLRUG 2 False = Inr ?emp" by (simp add: NewLRUG_def omap_New_def)
  have g1: "LRUG_Get 1 ?st
             = (Some 10, \<lparr>size_lru = 2, items = [(2, 20), (1, 10)], onEvict = False, onEvict_calls = []\<rparr>)"
    by (simp add: LRUG_Get_def LRUG_Peek_def omap_Get_def omap_ToTail_def omap_Delete_def)
  from LRUG_Get_promotes[of 3 ?st 10 2 False ?emp 1 2 10 20] p3 new
  have "LRUG_Get 3 ?st = (None, ?st)
        \<and> LRUG_Keys (lru_run [LAdd 1 10, LAdd 2 20, LGet 1] ?emp) = [2, 1]"
    by simp
  moreover from LRUG_Get_promotes[of 1 ?st 10 2 False ?emp 1 2 10 20] p1
  have "fst (LRUG_Get 1 ?st) = Some 10" by simp
  ultimately show ?thesis using p1 p3 new g1 by simp
qed

section \<open>The two-queue cache: the invariant of its three pools\<close>

subsection \<open>Keys of the bounded ordered cache\<close>

lemma Keys_Add:
  assumes "distinct (LRUG_Keys c)"
  shows "distinct (LRUG_Keys (snd (LRUG_Add k v c)))"
    and "set (LRUG_Keys (snd (LRUG_Add k v c))) \<subseteq> insert k (set (LRUG_Keys c))"
  using assms keys_LRUG_Add[of c k v] by (simp_all add: LRUG_Keys_items)

lemma Keys_Add_mem:
  assumes "distinct (LRUG_Keys c)" and "0 < size_lru c"
  shows "k \<in> set (LRUG_Keys (snd (LRUG_Add k v c)))"
    and "LRUG_Peek k (snd (LRUG_Add k v c)) = Some v"
proof -
  have m: "map_of (items (snd (LRUG_Add k v c))) k = Some v"
    using assms by (simp add: LRUG_Add_has_key LRUG_Keys_items)
  then show "LRUG_Peek k (snd (LRUG_Add k v c)) = Some v" by (simp add: LRUG_Peek_items)
  from m show "k \<in> set (LRUG_Keys (snd (LRUG_Add k v c)))"
    using map_of_None_iff[of "items (snd (LRUG_Add k v c))" k] by (simp add: LRUG_Keys_items)
qed

lemma Keys_Remove:
  "set (LRUG_Keys (snd (LRUG_Remove k c))) = set (LRUG_Keys c) - {k}"
  "distinct (LRUG_Keys c) \<Longrightarrow> distinct (LRUG_Keys (snd (LRUG_Remove k c)))"
  by (simp_all add: LRUG_Keys_items keys_LRUG_Remove)

lemma Keys_RemoveOldest:
  "distinct (LRUG_Keys c) \<Longrightarrow> LRUG_Keys (snd (LRUG_RemoveOldest c)) = tl (LRUG_Keys c)"
  by (simp add: LRUG_Keys_items items_LRUG_RemoveOldest map_tl)

lemma Keys_Get:
  "set (LRUG_Keys (snd (LRUG_Get k c))) = set (LRUG_Keys c)"
  "distinct (LRUG_Keys c) \<Longrightarrow> distinct (LRUG_Keys (snd (LRUG_Get k c)))"
  by (simp_all add: LRUG_Keys_items keys_LRUG_Get)

lemma Keys_Purge: "LRUG_Keys (LRUG_Purge c) = []"
  by (simp add: LRUG_Keys_items items_LRUG_Purge)

lemma Contains_Keys: "LRUG_Contains k c \<longleftrightarrow> k \<in> set (LRUG_Keys c)"
  by (simp add: LRUG_Contains_iff LRUG_Keys_items)

lemma Peek_None_Keys: "LRUG_Peek k c = None \<longleftrightarrow> k \<notin> set (LRUG_Keys c)"
  by (simp add: LRUG_Peek_items LRUG_Keys_items map_of_None_iff)

subsection \<open>The three outcomes of \<^verbatim>\<open>ensureSpace\<close>\<close>

lemma ensureSpace_room:
  "LRUG_Len (recent c) + LRUG_Len (frequent c) < size_2q c \<Longrightarrow> ensureSpace hint c = c"
  by (simp add: ensureSpace_def Let_def)

lemma ensureSpace_recent:
  assumes "evicts_recent hint c"
  shows "\<exists>e. LRUG_GetOldest (recent c) = Some e \<and>
           ensureSpace hint c =
             c\<lparr>recent := snd (LRUG_RemoveOldest (recent c)),
               recentEvict := snd (LRUG_Add (fst e) default (recentEvict c))\<rparr>"
proof -
  from assms have "items (recent c) \<noteq> []"
    by (auto simp: evicts_recent_def LRUG_Len_items)
  then obtain e m where em: "items (recent c) = e # m" by (cases "items (recent c)") auto
  then have "LRUG_GetOldest (recent c) = Some e"
    and "fst (LRUG_RemoveOldest (recent c)) = Some e"
    by (simp_all add: LRUG_GetOldest_def omap_GetAt_0 fst_LRUG_RemoveOldest)
  with assms show ?thesis
    by (cases "LRUG_RemoveOldest (recent c)")
       (auto simp: ensureSpace_def Let_def evicts_recent_def)
qed

lemma ensureSpace_frequent:
  assumes "size_2q c \<le> LRUG_Len (recent c) + LRUG_Len (frequent c)"
    and "\<not> evicts_recent hint c"
  shows "ensureSpace hint c = c\<lparr>frequent := snd (LRUG_RemoveOldest (frequent c))\<rparr>"
  using assms by (auto simp: ensureSpace_def Let_def evicts_recent_def)

subsection \<open>Every public operation keeps the pools disjoint\<close>

lemma twoq_invI:
  assumes "distinct (LRUG_Keys (recent c))" "distinct (LRUG_Keys (frequent c))"
    "distinct (LRUG_Keys (recentEvict c))"
    "set (LRUG_Keys (recent c)) \<inter> set (LRUG_Keys (frequent c)) = {}"
    "set (LRUG_Keys (recent c)) \<inter> set (LRUG_Keys (recentEvict c)) = {}"
    "set (LRUG_Keys (frequent c)) \<inter> set (LRUG_Keys (recentEvict c)) = {}"
    "0 < size_lru (recent c)" "0 < size_lru (frequent c)" "0 < size_lru (recentEvict c)"
  shows "twoq_inv c"
  using assms by (simp add: twoq_inv_def)

lemma twoq_invD:
  assumes "twoq_inv c"
  shows "distinct (LRUG_Keys (recent c))" "distinct (LRUG_Keys (frequent c))"
    "distinct (LRUG_Keys (recentEvict c))"
    "set (LRUG_Keys (recent c)) \<inter> set (LRUG_Keys (frequent c)) = {}"
    "set (LRUG_Keys (recent c)) \<inter> set (LRUG_Keys (recentEvict c)) = {}"
    "set (LRUG_Keys (frequent c)) \<inter> set (LRUG_Keys (recentEvict c)) = {}"
    "0 < size_lru (recent c)" "0 < size_lru (frequent c)" "0 < size_lru (recentEvict c)"
  using assms by (simp_all add: twoq_inv_def)

lemma GetOldest_Keys:
  "LRUG_GetOldest c = Some e \<Longrightarrow> LRUG_Keys c = fst e # tl (LRUG_Keys c)"
  by (cases "items c") (simp_all add: LRUG_GetOldest_def omap_GetAt_0 LRUG_Keys_items)

lemma twoq_inv_ensureSpace:
  assumes inv: "twoq_inv c"
  shows "twoq_inv (ensureSpace hint c)"
proof -
  note d = twoq_invD[OF inv]
  consider (room) "LRUG_Len (recent c) + LRUG_Len (frequent c) < size_2q c"
    | (rec) "evicts_recent hint c"
    | (freq) "size_2q c \<le> LRUG_Len (recent c) + LRUG_Len (frequent c)" "\<not> evicts_recent hint c"
    by fastforce
  then show ?thesis
  proof cases
    case room
    with inv show ?thesis by (simp add: ensureSpace_room)
  next
    case rec
    from ensureSpace_recent[OF rec] obtain e where
      old: "LRUG_GetOldest (recent c) = Some e" and
      es: "ensureSpace hint c =
             c\<lparr>recent := snd (LRUG_RemoveOldest (recent c)),
               recentEvict := snd (LRUG_Add (fst e) default (recentEvict c))\<rparr>"
      by blast
    let ?r = "snd (LRUG_RemoveOldest (recent c))"
    let ?g = "snd (LRUG_Add (fst e) default (recentEvict c))"
    have kr: "LRUG_Keys (recent c) = fst e # LRUG_Keys ?r"
      using GetOldest_Keys[OF old] d(1) by (simp add: Keys_RemoveOldest)
    have dr: "distinct (LRUG_Keys ?r)" and nr: "fst e \<notin> set (LRUG_Keys ?r)"
      and sr: "set (LRUG_Keys ?r) \<subseteq> set (LRUG_Keys (recent c))"
      using d(1) kr by (metis distinct.simps(2), metis distinct.simps(2), metis set_subset_Cons)
    have er: "fst e \<in> set (LRUG_Keys (recent c))" using kr by (metis list.set_intros(1))
    have dg: "distinct (LRUG_Keys ?g)"
      and sg: "set (LRUG_Keys ?g) \<subseteq> insert (fst e) (set (LRUG_Keys (recentEvict c)))"
      using Keys_Add[OF d(3)] by blast+
    have "set (LRUG_Keys ?r) \<inter> set (LRUG_Keys (frequent c)) = {}"
      using sr d(4) by blast
    moreover have "set (LRUG_Keys ?r) \<inter> set (LRUG_Keys ?g) = {}"
      using sr sg nr d(5) by blast
    moreover have "set (LRUG_Keys (frequent c)) \<inter> set (LRUG_Keys ?g) = {}"
      using sg er d(4) d(6) by blast
    ultimately show ?thesis
      using dr dg d
      by (simp add: es twoq_inv_def size_lru_LRUG_RemoveOldest size_lru_LRUG_Add)
  next
    case freq
    let ?f = "snd (LRUG_RemoveOldest (frequent c))"
    have es: "ensureSpace hint c = c\<lparr>frequent := ?f\<rparr>"
      using freq by (rule ensureSpace_frequent)
    have kf: "LRUG_Keys ?f = tl (LRUG_Keys (frequent c))"
      using d(2) by (rule Keys_RemoveOldest)
    have df: "distinct (LRUG_Keys ?f)" using d(2) by (simp add: kf distinct_tl)
    have sf: "set (LRUG_Keys ?f) \<subseteq> set (LRUG_Keys (frequent c))"
      unfolding kf by (rule set_tl_subset)
    have "set (LRUG_Keys (recent c)) \<inter> set (LRUG_Keys ?f) = {}" using sf d(4) by blast
    moreover have "set (LRUG_Keys ?f) \<inter> set (LRUG_Keys (recentEvict c)) = {}"
      using sf d(6) by blast
    ultimately show ?thesis
      using df d by (simp add: es twoq_inv_def size_lru_LRUG_RemoveOldest)
  qed
qed

lemma ensureSpace_keys:
  assumes inv: "twoq_inv c"
  shows "set (LRUG_Keys (recent (ensureSpace hint c))) \<subseteq> set (LRUG_Keys (recent c))"
    and "set (LRUG_Keys (frequent (ensureSpace hint c))) \<subseteq> set (LRUG_Keys (frequent c))"
    and "size_2q (ensureSpace hint c) = size_2q c"
    and "recentSize (ensureSpace hint c) = recentSize c"
proof -
  note d = twoq_invD[OF inv]
  have tlr: "set (tl (LRUG_Keys (recent c))) \<subseteq> set (LRUG_Keys (recent c))"
    and tlf: "set (tl (LRUG_Keys (frequent c))) \<subseteq> set (LRUG_Keys (frequent c))"
    by (rule set_tl_subset)+
  consider (room) "LRUG_Len (recent c) + LRUG_Len (frequent c) < size_2q c"
    | (rec) "evicts_recent hint c"
    | (freq) "size_2q c \<le> LRUG_Len (recent c) + LRUG_Len (frequent c)" "\<not> evicts_recent hint c"
    by fastforce
  then have "set (LRUG_Keys (recent (ensureSpace hint c))) \<subseteq> set (LRUG_Keys (recent c))
      \<and> set (LRUG_Keys (frequent (ensureSpace hint c))) \<subseteq> set (LRUG_Keys (frequent c))
      \<and> size_2q (ensureSpace hint c) = size_2q c
      \<and> recentSize (ensureSpace hint c) = recentSize c"
  proof cases
    case room
    then show ?thesis by (simp add: ensureSpace_room)
  next
    case rec
    from ensureSpace_recent[OF rec] obtain e where
      old: "LRUG_GetOldest (recent c) = Some e" and
      es: "ensureSpace hint c =
             c\<lparr>recent := snd (LRUG_RemoveOldest (recent c)),
               recentEvict := snd (LRUG_Add (fst e) default (recentEvict c))\<rparr>"
      by blast
    show ?thesis using tlr d(1) by (simp add: es Keys_RemoveOldest)
  next
    case freq
    from ensureSpace_frequent[OF freq] tlf d(2) show ?thesis
      by (simp add: Keys_RemoveOldest)
  qed
  then show "set (LRUG_Keys (recent (ensureSpace hint c))) \<subseteq> set (LRUG_Keys (recent c))"
    and "set (LRUG_Keys (frequent (ensureSpace hint c))) \<subseteq> set (LRUG_Keys (frequent c))"
    and "size_2q (ensureSpace hint c) = size_2q c"
    and "recentSize (ensureSpace hint c) = recentSize c"
    by blast+
qed

lemma ensureSpace_ghost_keys:
  assumes inv: "twoq_inv c"
  shows "set (LRUG_Keys (recentEvict (ensureSpace hint c)))
           \<subseteq> set (LRUG_Keys (recentEvict c)) \<union> set (LRUG_Keys (recent c))"
proof -
  note d = twoq_invD[OF inv]
  consider (room) "LRUG_Len (recent c) + LRUG_Len (frequent c) < size_2q c"
    | (rec) "evicts_recent hint c"
    | (freq) "size_2q c \<le> LRUG_Len (recent c) + LRUG_Len (frequent c)" "\<not> evicts_recent hint c"
    by fastforce
  then show ?thesis
  proof cases
    case room
    then show ?thesis by (simp add: ensureSpace_room)
  next
    case rec
    from ensureSpace_recent[OF rec] obtain e where
      old: "LRUG_GetOldest (recent c) = Some e" and
      es: "ensureSpace hint c =
             c\<lparr>recent := snd (LRUG_RemoveOldest (recent c)),
               recentEvict := snd (LRUG_Add (fst e) default (recentEvict c))\<rparr>"
      by blast
    have "fst e \<in> set (LRUG_Keys (recent c))"
      using GetOldest_Keys[OF old] by (metis list.set_intros(1))
    moreover have "set (LRUG_Keys (snd (LRUG_Add (fst e) default (recentEvict c))))
        \<subseteq> insert (fst e) (set (LRUG_Keys (recentEvict c)))"
      using d(3) by (rule Keys_Add(2))
    ultimately show ?thesis by (auto simp: es)
  next
    case freq
    from ensureSpace_frequent[OF freq] show ?thesis by simp
  qed
qed

lemma LRUG_Get_miss: "k \<notin> set (LRUG_Keys c) \<Longrightarrow> LRUG_Get k c = (None, c)"
  by (simp add: LRUG_Get_def Peek_None_Keys[symmetric])

lemma TwoQ_Get_frequent:
  assumes "k \<in> set (LRUG_Keys (frequent c))"
  shows "snd (TwoQ_Get k c) = c\<lparr>frequent := snd (LRUG_Get k (frequent c))\<rparr>"
proof -
  from assms obtain v where "fst (LRUG_Get k (frequent c)) = Some v"
    using map_of_None_iff[of "items (frequent c)" k]
    by (auto simp: fst_LRUG_Get LRUG_Keys_items)
  then show ?thesis
    by (cases "LRUG_Get k (frequent c)") (simp add: TwoQ_Get_def)
qed

lemma TwoQ_Get_recent:
  assumes "k \<notin> set (LRUG_Keys (frequent c))" and "LRUG_Peek k (recent c) = Some v"
  shows "TwoQ_Get k c =
           (Some v, c\<lparr>recent := snd (LRUG_Remove k (recent c)),
                      frequent := snd (LRUG_Add k v (frequent c))\<rparr>)"
  using assms by (simp add: TwoQ_Get_def LRUG_Get_miss)

lemma TwoQ_Get_miss:
  assumes "k \<notin> set (LRUG_Keys (frequent c))" and "k \<notin> set (LRUG_Keys (recent c))"
  shows "TwoQ_Get k c = (None, c)"
proof -
  have "LRUG_Peek k (recent c) = None" using assms(2) by (simp add: Peek_None_Keys)
  with assms(1) show ?thesis by (simp add: TwoQ_Get_def LRUG_Get_miss)
qed

lemma twoq_inv_Get:
  assumes inv: "twoq_inv c"
  shows "twoq_inv (snd (TwoQ_Get k c))"
proof -
  note d = twoq_invD[OF inv]
  show ?thesis
  proof (cases "k \<in> set (LRUG_Keys (frequent c))")
    case True
    show ?thesis
      using d by (simp add: TwoQ_Get_frequent[OF True] twoq_inv_def Keys_Get size_lru_LRUG_Get)
  next
    case False
    show ?thesis
    proof (cases "LRUG_Peek k (recent c)")
      case None
      then have "k \<notin> set (LRUG_Keys (recent c))" by (simp add: Peek_None_Keys)
      with False inv show ?thesis by (simp add: TwoQ_Get_miss)
    next
      case (Some v)
      let ?r = "snd (LRUG_Remove k (recent c))"
      let ?f = "snd (LRUG_Add k v (frequent c))"
      have kr: "k \<in> set (LRUG_Keys (recent c))"
        using Some Peek_None_Keys[of k "recent c"] by auto
      have sr: "set (LRUG_Keys ?r) = set (LRUG_Keys (recent c)) - {k}" by (rule Keys_Remove(1))
      have dr: "distinct (LRUG_Keys ?r)" using d(1) by (rule Keys_Remove(2))
      have df: "distinct (LRUG_Keys ?f)"
        and sf: "set (LRUG_Keys ?f) \<subseteq> insert k (set (LRUG_Keys (frequent c)))"
        using Keys_Add[OF d(2)] by blast+
      have "set (LRUG_Keys ?r) \<inter> set (LRUG_Keys ?f) = {}" using sr sf d(4) by blast
      moreover have "set (LRUG_Keys ?r) \<inter> set (LRUG_Keys (recentEvict c)) = {}"
        using sr d(5) by blast
      moreover have "set (LRUG_Keys ?f) \<inter> set (LRUG_Keys (recentEvict c)) = {}"
        using sf kr d(5) d(6) by blast
      ultimately show ?thesis
        using dr df d
        by (simp add: TwoQ_Get_recent[OF False Some] twoq_inv_def
              size_lru_LRUG_Remove size_lru_LRUG_Add)
    qed
  qed
qed

lemma TwoQ_Remove_unfold:
  "TwoQ_Remove k c =
     (if fst (LRUG_Remove k (frequent c))
      then c\<lparr>frequent := snd (LRUG_Remove k (frequent c))\<rparr>
      else if fst (LRUG_Remove k (recent c))
      then c\<lparr>frequent := snd (LRUG_Remove k (frequent c)),
             recent := snd (LRUG_Remove k (recent c))\<rparr>
      else c\<lparr>frequent := snd (LRUG_Remove k (frequent c)),
             recent := snd (LRUG_Remove k (recent c)),
             recentEvict := snd (LRUG_Remove k (recentEvict c))\<rparr>)"
  by (cases "LRUG_Remove k (frequent c)"; cases "LRUG_Remove k (recent c)")
     (auto simp: TwoQ_Remove_def)

lemma twoq_inv_Remove:
  assumes inv: "twoq_inv c"
  shows "twoq_inv (TwoQ_Remove k c)"
proof -
  note d = twoq_invD[OF inv]
  have s: "\<And>p. set (LRUG_Keys (snd (LRUG_Remove k p))) \<subseteq> set (LRUG_Keys p)"
    by (simp add: Keys_Remove(1) Diff_subset)
  have dd: "\<And>p. distinct (LRUG_Keys p) \<Longrightarrow> distinct (LRUG_Keys (snd (LRUG_Remove k p)))"
    by (rule Keys_Remove(2))
  let ?r = "snd (LRUG_Remove k (recent c))"
  let ?f = "snd (LRUG_Remove k (frequent c))"
  let ?g = "snd (LRUG_Remove k (recentEvict c))"
  have 1: "set (LRUG_Keys ?r) \<inter> set (LRUG_Keys ?f) = {}"
    using s[of "recent c"] s[of "frequent c"] d(4) by blast
  have 2: "set (LRUG_Keys ?r) \<inter> set (LRUG_Keys ?g) = {}"
    using s[of "recent c"] s[of "recentEvict c"] d(5) by blast
  have 3: "set (LRUG_Keys ?f) \<inter> set (LRUG_Keys ?g) = {}"
    using s[of "frequent c"] s[of "recentEvict c"] d(6) by blast
  have 4: "set (LRUG_Keys (recent c)) \<inter> set (LRUG_Keys ?f) = {}"
    using s[of "frequent c"] d(4) by blast
  have 5: "set (LRUG_Keys ?f) \<inter> set (LRUG_Keys (recentEvict c)) = {}"
    using s[of "frequent c"] d(6) by blast
  have 6: "set (LRUG_Keys ?r) \<inter> set (LRUG_Keys (recentEvict c)) = {}"
    using s[of "recent c"] d(5) by blast
  show ?thesis
    using d dd[OF d(1)] dd[OF d(2)] dd[OF d(3)] 1 2 3 4 5 6
    by (simp add: TwoQ_Remove_unfold twoq_inv_def size_lru_LRUG_Remove)
qed

lemma twoq_inv_Purge: "twoq_inv c \<Longrightarrow> twoq_inv (TwoQ_Purge c)"
  by (simp add: twoq_inv_def TwoQ_Purge_def Keys_Purge size_lru_LRUG_Purge)

lemma TwoQ_Add_frequent:
  "k \<in> set (LRUG_Keys (frequent c)) \<Longrightarrow>
     TwoQ_Add k v c = c\<lparr>frequent := snd (LRUG_Add k v (frequent c))\<rparr>"
  by (simp add: TwoQ_Add_def Contains_Keys)

lemma TwoQ_Add_recent:
  "k \<notin> set (LRUG_Keys (frequent c)) \<Longrightarrow> k \<in> set (LRUG_Keys (recent c)) \<Longrightarrow>
     TwoQ_Add k v c = c\<lparr>recent := snd (LRUG_Remove k (recent c)),
                        frequent := snd (LRUG_Add k v (frequent c))\<rparr>"
  by (simp add: TwoQ_Add_def Contains_Keys)

lemma TwoQ_Add_ghost:
  "k \<notin> set (LRUG_Keys (frequent c)) \<Longrightarrow> k \<notin> set (LRUG_Keys (recent c)) \<Longrightarrow>
   k \<in> set (LRUG_Keys (recentEvict c)) \<Longrightarrow>
     TwoQ_Add k v c =
       (ensureSpace True c)\<lparr>recentEvict := snd (LRUG_Remove k (recentEvict (ensureSpace True c))),
                             frequent := snd (LRUG_Add k v (frequent (ensureSpace True c)))\<rparr>"
  by (simp add: TwoQ_Add_def Contains_Keys Let_def)

lemma TwoQ_Add_new:
  "k \<notin> set (LRUG_Keys (frequent c)) \<Longrightarrow> k \<notin> set (LRUG_Keys (recent c)) \<Longrightarrow>
   k \<notin> set (LRUG_Keys (recentEvict c)) \<Longrightarrow>
     TwoQ_Add k v c =
       (ensureSpace False c)\<lparr>recent := snd (LRUG_Add k v (recent (ensureSpace False c)))\<rparr>"
  by (simp add: TwoQ_Add_def Contains_Keys Let_def)

lemma twoq_inv_Add:
  assumes inv: "twoq_inv c"
  shows "twoq_inv (TwoQ_Add k v c)"
proof -
  note d = twoq_invD[OF inv]
  consider (fr) "k \<in> set (LRUG_Keys (frequent c))"
    | (rc) "k \<notin> set (LRUG_Keys (frequent c))" "k \<in> set (LRUG_Keys (recent c))"
    | (gh) "k \<notin> set (LRUG_Keys (frequent c))" "k \<notin> set (LRUG_Keys (recent c))"
           "k \<in> set (LRUG_Keys (recentEvict c))"
    | (nw) "k \<notin> set (LRUG_Keys (frequent c))" "k \<notin> set (LRUG_Keys (recent c))"
           "k \<notin> set (LRUG_Keys (recentEvict c))"
    by blast
  then show ?thesis
  proof cases
    case fr
    let ?f = "snd (LRUG_Add k v (frequent c))"
    have df: "distinct (LRUG_Keys ?f)"
      and sf: "set (LRUG_Keys ?f) \<subseteq> insert k (set (LRUG_Keys (frequent c)))"
      using Keys_Add[OF d(2)] by blast+
    have "set (LRUG_Keys (recent c)) \<inter> set (LRUG_Keys ?f) = {}" using sf fr d(4) by blast
    moreover have "set (LRUG_Keys ?f) \<inter> set (LRUG_Keys (recentEvict c)) = {}"
      using sf fr d(6) by blast
    ultimately show ?thesis
      using df d by (simp add: TwoQ_Add_frequent[OF fr] twoq_inv_def size_lru_LRUG_Add)
  next
    case rc
    let ?r = "snd (LRUG_Remove k (recent c))"
    let ?f = "snd (LRUG_Add k v (frequent c))"
    have sr: "set (LRUG_Keys ?r) = set (LRUG_Keys (recent c)) - {k}" by (rule Keys_Remove(1))
    have dr: "distinct (LRUG_Keys ?r)" using d(1) by (rule Keys_Remove(2))
    have df: "distinct (LRUG_Keys ?f)"
      and sf: "set (LRUG_Keys ?f) \<subseteq> insert k (set (LRUG_Keys (frequent c)))"
      using Keys_Add[OF d(2)] by blast+
    have "set (LRUG_Keys ?r) \<inter> set (LRUG_Keys ?f) = {}" using sr sf d(4) by blast
    moreover have "set (LRUG_Keys ?r) \<inter> set (LRUG_Keys (recentEvict c)) = {}"
      using sr d(5) by blast
    moreover have "set (LRUG_Keys ?f) \<inter> set (LRUG_Keys (recentEvict c)) = {}"
      using sf rc(2) d(5) d(6) by blast
    ultimately show ?thesis
      using dr df d
      by (simp add: TwoQ_Add_recent[OF rc] twoq_inv_def size_lru_LRUG_Remove size_lru_LRUG_Add)
  next
    case gh
    let ?c = "ensureSpace True c"
    let ?g = "snd (LRUG_Remove k (recentEvict ?c))"
    let ?f = "snd (LRUG_Add k v (frequent ?c))"
    have inv1: "twoq_inv ?c" using inv by (rule twoq_inv_ensureSpace)
    note e = twoq_invD[OF inv1]
    have kr: "k \<notin> set (LRUG_Keys (recent ?c))"
      using ensureSpace_keys(1)[OF inv, of True] gh(2) by blast
    have sg: "set (LRUG_Keys ?g) = set (LRUG_Keys (recentEvict ?c)) - {k}"
      by (rule Keys_Remove(1))
    have dg: "distinct (LRUG_Keys ?g)" using e(3) by (rule Keys_Remove(2))
    have df: "distinct (LRUG_Keys ?f)"
      and sf: "set (LRUG_Keys ?f) \<subseteq> insert k (set (LRUG_Keys (frequent ?c)))"
      using Keys_Add[OF e(2)] by blast+
    have "set (LRUG_Keys (recent ?c)) \<inter> set (LRUG_Keys ?f) = {}" using sf kr e(4) by blast
    moreover have "set (LRUG_Keys (recent ?c)) \<inter> set (LRUG_Keys ?g) = {}"
      using sg e(5) by blast
    moreover have "set (LRUG_Keys ?f) \<inter> set (LRUG_Keys ?g) = {}" using sf sg e(6) by blast
    ultimately show ?thesis
      using dg df e
      by (simp add: TwoQ_Add_ghost[OF gh] twoq_inv_def size_lru_LRUG_Remove size_lru_LRUG_Add)
  next
    case nw
    let ?c = "ensureSpace False c"
    let ?r = "snd (LRUG_Add k v (recent ?c))"
    have inv1: "twoq_inv ?c" using inv by (rule twoq_inv_ensureSpace)
    note e = twoq_invD[OF inv1]
    have kf: "k \<notin> set (LRUG_Keys (frequent ?c))"
      using ensureSpace_keys(2)[OF inv, of False] nw(1) by blast
    have kg: "k \<notin> set (LRUG_Keys (recentEvict ?c))"
      using ensureSpace_ghost_keys[OF inv, of False] nw(2) nw(3) by blast
    have dr: "distinct (LRUG_Keys ?r)"
      and sr: "set (LRUG_Keys ?r) \<subseteq> insert k (set (LRUG_Keys (recent ?c)))"
      using Keys_Add[OF e(1)] by blast+
    have "set (LRUG_Keys ?r) \<inter> set (LRUG_Keys (frequent ?c)) = {}" using sr kf e(4) by blast
    moreover have "set (LRUG_Keys ?r) \<inter> set (LRUG_Keys (recentEvict ?c)) = {}"
      using sr kg e(5) by blast
    ultimately show ?thesis
      using dr e by (simp add: TwoQ_Add_new[OF nw] twoq_inv_def size_lru_LRUG_Add)
  qed
qed

lemma twoq_inv_step: "twoq_inv c \<Longrightarrow> twoq_inv (twoq_step op c)"
  by (cases op) (simp_all add: twoq_inv_Get twoq_inv_Add twoq_inv_Remove twoq_inv_Purge)

lemma twoq_inv_run: "twoq_inv c \<Longrightarrow> twoq_inv (twoq_run ops c)"
  unfolding twoq_run_def
  by (induction ops arbitrary: c) (simp_all add: twoq_inv_step)

lemma twoq_inv_new:
  assumes "New2QParamsG fmul oor sz rr gr = Inr c0"
  shows "twoq_inv c0"
proof -
  from assms obtain rc fr re where
    "NewLRUG sz False = Inr rc" "NewLRUG sz False = Inr fr"
    "NewLRUG (float_to_int oor (fmul sz gr)) False = Inr re"
    "c0 = \<lparr>size_2q = sz, recentSize = float_to_int oor (fmul sz rr),
           recent = rc, frequent = fr, recentEvict = re\<rparr>"
    by (auto simp: New2QParamsG_def Let_def split: if_splits sum.splits)
  then show ?thesis
    by (auto simp: twoq_inv_def LRUG_Keys_items dest!: NewLRUG_Inr)
qed

lemma twoq_inv_reachable:
  "New2QParamsG fmul oor sz rr gr = Inr c0 \<Longrightarrow> twoq_inv (twoq_run ops c0)"
  by (rule twoq_inv_run) (rule twoq_inv_new)

subsection \<open>Ghosts and the pool an added key lands in\<close>

lemma ghost_not_cached:
  assumes inv: "twoq_inv c" and g: "x \<in> set (LRUG_Keys (recentEvict c))"
  shows "x \<notin> set (LRUG_Keys (recent c))" and "x \<notin> set (LRUG_Keys (frequent c))"
    and "TwoQ_Get x c = (None, c)"
proof -
  note d = twoq_invD[OF inv]
  show r: "x \<notin> set (LRUG_Keys (recent c))" using g d(5) by blast
  show f: "x \<notin> set (LRUG_Keys (frequent c))" using g d(6) by blast
  from f r show "TwoQ_Get x c = (None, c)" by (rule TwoQ_Get_miss)
qed

lemma ensureSpace_makes_ghost:
  assumes inv: "twoq_inv c" and ev: "evicts_recent hint c"
    and old: "LRUG_GetOldest (recent c) = Some e"
  shows "LRUG_Peek (fst e) (recentEvict (ensureSpace hint c)) = Some default"
    and "fst e \<in> set (LRUG_Keys (recentEvict (ensureSpace hint c)))"
    and "fst e \<in> set (LRUG_Keys (recent c))"
proof -
  note d = twoq_invD[OF inv]
  from ensureSpace_recent[OF ev] old have
    es: "ensureSpace hint c =
           c\<lparr>recent := snd (LRUG_RemoveOldest (recent c)),
             recentEvict := snd (LRUG_Add (fst e) default (recentEvict c))\<rparr>"
    by auto
  show "LRUG_Peek (fst e) (recentEvict (ensureSpace hint c)) = Some default"
    using Keys_Add_mem(2)[OF d(3) d(9)] by (simp add: es)
  show "fst e \<in> set (LRUG_Keys (recentEvict (ensureSpace hint c)))"
    using Keys_Add_mem(1)[OF d(3) d(9)] by (simp add: es)
  show "fst e \<in> set (LRUG_Keys (recent c))"
    using GetOldest_Keys[OF old] by (metis list.set_intros(1))
qed

lemma Add_keeps_new_ghost:
  assumes inv: "twoq_inv c"
    and kf: "k \<notin> set (LRUG_Keys (frequent c))" and kr: "k \<notin> set (LRUG_Keys (recent c))"
    and ev: "evicts_recent (k \<in> set (LRUG_Keys (recentEvict c))) c"
    and old: "LRUG_GetOldest (recent c) = Some e"
  shows "fst e \<in> set (LRUG_Keys (recentEvict (TwoQ_Add k v c)))"
proof -
  let ?h = "k \<in> set (LRUG_Keys (recentEvict c))"
  note m = ensureSpace_makes_ghost[OF inv ev old]
  from m(3) kr have ne: "fst e \<noteq> k" by blast
  show ?thesis
  proof (cases ?h)
    case True
    with m(2) have "fst e \<in> set (LRUG_Keys (recentEvict (ensureSpace True c)))" by simp
    with ne show ?thesis by (simp add: TwoQ_Add_ghost[OF kf kr True] Keys_Remove(1))
  next
    case False
    with m(2) have "fst e \<in> set (LRUG_Keys (recentEvict (ensureSpace False c)))" by simp
    then show ?thesis by (simp add: TwoQ_Add_new[OF kf kr False])
  qed
qed

lemma Add_ghost_lands_in_frequent:
  assumes inv: "twoq_inv c" and g: "x \<in> set (LRUG_Keys (recentEvict c))"
  shows "LRUG_Peek x (frequent (TwoQ_Add x v c)) = Some v"
    and "x \<notin> set (LRUG_Keys (recent (TwoQ_Add x v c)))"
    and "x \<notin> set (LRUG_Keys (recentEvict (TwoQ_Add x v c)))"
proof -
  note n = ghost_not_cached[OF inv g]
  let ?c = "ensureSpace True c"
  have inv1: "twoq_inv ?c" using inv by (rule twoq_inv_ensureSpace)
  note e = twoq_invD[OF inv1]
  note eq = TwoQ_Add_ghost[OF n(2) n(1) g, of v]
  show "LRUG_Peek x (frequent (TwoQ_Add x v c)) = Some v"
    using Keys_Add_mem(2)[OF e(2) e(8)] by (simp add: eq)
  show "x \<notin> set (LRUG_Keys (recent (TwoQ_Add x v c)))"
    using ensureSpace_keys(1)[OF inv, of True] n(1) by (auto simp: eq)
  show "x \<notin> set (LRUG_Keys (recentEvict (TwoQ_Add x v c)))"
    by (simp add: eq Keys_Remove(1))
qed

lemma Add_lands:
  assumes inv: "twoq_inv c"
  shows "LRUG_Peek k (if TwoQ_Contains k c \<or> LRUG_Contains k (recentEvict c)
                      then frequent (TwoQ_Add k v c) else recent (TwoQ_Add k v c)) = Some v"
    and "TwoQ_Peek k (TwoQ_Add k v c) = Some v"
    and "TwoQ_Contains k (TwoQ_Add k v c)"
proof -
  note d = twoq_invD[OF inv]
  let ?pool = "if TwoQ_Contains k c \<or> LRUG_Contains k (recentEvict c)
               then frequent (TwoQ_Add k v c) else recent (TwoQ_Add k v c)"
  have inv2: "twoq_inv (TwoQ_Add k v c)" using inv by (rule twoq_inv_Add)
  note d2 = twoq_invD[OF inv2]
  consider (fr) "k \<in> set (LRUG_Keys (frequent c))"
    | (rc) "k \<notin> set (LRUG_Keys (frequent c))" "k \<in> set (LRUG_Keys (recent c))"
    | (gh) "k \<notin> set (LRUG_Keys (frequent c))" "k \<notin> set (LRUG_Keys (recent c))"
           "k \<in> set (LRUG_Keys (recentEvict c))"
    | (nw) "k \<notin> set (LRUG_Keys (frequent c))" "k \<notin> set (LRUG_Keys (recent c))"
           "k \<notin> set (LRUG_Keys (recentEvict c))"
    by blast
  then show p: "LRUG_Peek k ?pool = Some v"
  proof cases
    case fr
    then show ?thesis
      using Keys_Add_mem(2)[OF d(2) d(8)]
      by (simp add: TwoQ_Add_frequent TwoQ_Contains_def Contains_Keys)
  next
    case rc
    then show ?thesis
      using Keys_Add_mem(2)[OF d(2) d(8)]
      by (simp add: TwoQ_Add_recent TwoQ_Contains_def Contains_Keys)
  next
    case gh
    then show ?thesis
      using Add_ghost_lands_in_frequent(1)[OF inv gh(3)]
      by (simp add: Contains_Keys)
  next
    case nw
    have inv1: "twoq_inv (ensureSpace False c)" using inv by (rule twoq_inv_ensureSpace)
    note e = twoq_invD[OF inv1]
    from nw show ?thesis
      using Keys_Add_mem(2)[OF e(1) e(7)]
      by (simp add: TwoQ_Add_new TwoQ_Contains_def Contains_Keys)
  qed
  have mem: "k \<in> set (LRUG_Keys ?pool)"
    using p Peek_None_Keys[of k ?pool] by auto
  show "TwoQ_Peek k (TwoQ_Add k v c) = Some v"
  proof (cases "TwoQ_Contains k c \<or> LRUG_Contains k (recentEvict c)")
    case True
    with p show ?thesis by (simp add: TwoQ_Peek_def)
  next
    case False
    with mem have "k \<in> set (LRUG_Keys (recent (TwoQ_Add k v c)))" by simp
    with d2(4) have "k \<notin> set (LRUG_Keys (frequent (TwoQ_Add k v c)))" by blast
    then have "LRUG_Peek k (frequent (TwoQ_Add k v c)) = None" by (simp add: Peek_None_Keys)
    with p False show ?thesis by (simp add: TwoQ_Peek_def)
  qed
  show "TwoQ_Contains k (TwoQ_Add k v c)"
    using mem by (auto simp: TwoQ_Contains_def Contains_Keys split: if_splits)
qed

lemma pools_holding_le_1: "twoq_inv c \<Longrightarrow> pools_holding k c \<le> 1"
  by (auto simp: pools_holding_def twoq_inv_def Contains_Keys)

lemma New_cache_4: "New2QParamsG fmul_exact int_indefinite 4 (1 / 4) (1 / 2) = Inr cache_4"
  by (simp add: New2QParamsG_def NewLRUG_def omap_New_def Let_def fmul_exact_def
        float_to_int_def truncate_rat_def cache_4_def)

lemma run_cache_4_full:
  "twoq_run [OpAdd 1 10, OpAdd 2 20, OpAdd 3 30, OpAdd 4 40] cache_4 = cache_4_full"
  by code_simp

lemma run_cache_4_ghost:
  "twoq_run [OpAdd 1 10, OpAdd 2 20, OpAdd 3 30, OpAdd 4 40, OpAdd 5 50] cache_4 = cache_4_ghost"
  by code_simp

section \<open>The two-queue cache: one pool per key, ghosts, and the key just added\<close>

text \<open>
  Claim C5: in every state that a sequence of public operations (\<^verbatim>\<open>Get\<close>, \<^verbatim>\<open>Add\<close>,
  \<^verbatim>\<open>Remove\<close>, \<^verbatim>\<open>Contains\<close>, \<^verbatim>\<open>Peek\<close>, \<^verbatim>\<open>Keys\<close>, \<^verbatim>\<open>Len\<close>, \<^verbatim>\<open>Purge\<close>) reaches from a freshly
  constructed two-queue cache, each key is contained in at most one of the three pools
  recent, frequent and \<^verbatim>\<open>recentEvict\<close>.
\<close>

theorem key_in_at_most_one_pool:
  assumes new: "New2QParamsG fmul oor sz rr gr = Inr c0"
  shows "pools_holding k (twoq_run ops c0) \<le> 1
       \<and> \<not> (LRUG_Contains k (recent (twoq_run ops c0))
            \<and> LRUG_Contains k (frequent (twoq_run ops c0)))
       \<and> \<not> (LRUG_Contains k (recent (twoq_run ops c0))
            \<and> LRUG_Contains k (recentEvict (twoq_run ops c0)))
       \<and> \<not> (LRUG_Contains k (frequent (twoq_run ops c0))
            \<and> LRUG_Contains k (recentEvict (twoq_run ops c0)))"
proof -
  have inv: "twoq_inv (twoq_run ops c0)" using new by (rule twoq_inv_reachable)
  note d = twoq_invD[OF inv]
  from d(4) d(5) d(6) pools_holding_le_1[OF inv, of k] show ?thesis
    by (auto simp: Contains_Keys)
qed

theorem key_in_at_most_one_pool_witness:
  "New2QParamsG fmul_exact int_indefinite 4 (1 / 4) (1 / 2) = Inr cache_4
   \<and> twoq_run [OpAdd 1 10, OpAdd 2 20, OpAdd 3 30, OpAdd 4 40, OpAdd 5 50] cache_4 = cache_4_ghost
   \<and> pools_holding 1 cache_4_ghost \<le> 1
   \<and> \<not> (LRUG_Contains 1 (recent cache_4_ghost) \<and> LRUG_Contains 1 (recentEvict cache_4_ghost))"
  using key_in_at_most_one_pool[OF New_cache_4,
          of 1 "[OpAdd 1 10, OpAdd 2 20, OpAdd 3 30, OpAdd 4 40, OpAdd 5 50]",
          unfolded run_cache_4_ghost]
        New_cache_4 run_cache_4_ghost
  by simp

text \<open>
  Claim C4: when \<^verbatim>\<open>ensureSpace\<close> evicts a key from recent (the oldest one), the key becomes
  a ghost: \<^verbatim>\<open>recentEvict\<close> holds it with the zero value, recent does not hold it any more,
  and \<^verbatim>\<open>Get\<close> of it is a miss that changes nothing, right after \<^verbatim>\<open>ensureSpace\<close> and also
  after the \<^verbatim>\<open>Add\<close> that called it. In every reachable state, while a key is a ghost,
  \<^verbatim>\<open>Get\<close> of it is a miss, and \<^verbatim>\<open>Add\<close> of it with a value removes the ghost and puts the
  key with that value into frequent, not into recent.
\<close>

theorem ghost_readmission:
  assumes new: "New2QParamsG fmul oor sz rr gr = Inr c0"
  shows "(evicts_recent hint (twoq_run ops c0)
            \<and> LRUG_GetOldest (recent (twoq_run ops c0)) = Some e \<longrightarrow>
              LRUG_Peek (fst e) (recentEvict (ensureSpace hint (twoq_run ops c0))) = Some default
            \<and> \<not> LRUG_Contains (fst e) (recent (ensureSpace hint (twoq_run ops c0)))
            \<and> TwoQ_Get (fst e) (ensureSpace hint (twoq_run ops c0))
                = (None, ensureSpace hint (twoq_run ops c0))
            \<and> (\<not> TwoQ_Contains k (twoq_run ops c0)
                 \<and> hint = LRUG_Contains k (recentEvict (twoq_run ops c0)) \<longrightarrow>
                   LRUG_Contains (fst e) (recentEvict (TwoQ_Add k v (twoq_run ops c0)))
                 \<and> TwoQ_Get (fst e) (TwoQ_Add k v (twoq_run ops c0))
                     = (None, TwoQ_Add k v (twoq_run ops c0))))
       \<and> (LRUG_Contains x (recentEvict (twoq_run ops c0)) \<longrightarrow>
              TwoQ_Get x (twoq_run ops c0) = (None, twoq_run ops c0)
            \<and> LRUG_Peek x (frequent (TwoQ_Add x w (twoq_run ops c0))) = Some w
            \<and> \<not> LRUG_Contains x (recent (TwoQ_Add x w (twoq_run ops c0)))
            \<and> \<not> LRUG_Contains x (recentEvict (TwoQ_Add x w (twoq_run ops c0))))"
proof -
  let ?c = "twoq_run ops c0"
  have inv: "twoq_inv ?c" using new by (rule twoq_inv_reachable)
  have a: "LRUG_Peek (fst e) (recentEvict (ensureSpace hint ?c)) = Some default
         \<and> \<not> LRUG_Contains (fst e) (recent (ensureSpace hint ?c))
         \<and> TwoQ_Get (fst e) (ensureSpace hint ?c) = (None, ensureSpace hint ?c)
         \<and> (\<not> TwoQ_Contains k ?c \<and> hint = LRUG_Contains k (recentEvict ?c) \<longrightarrow>
               LRUG_Contains (fst e) (recentEvict (TwoQ_Add k v ?c))
             \<and> TwoQ_Get (fst e) (TwoQ_Add k v ?c) = (None, TwoQ_Add k v ?c))"
    if ev: "evicts_recent hint ?c" and old: "LRUG_GetOldest (recent ?c) = Some e"
  proof -
    note m = ensureSpace_makes_ghost[OF inv ev old]
    have inv1: "twoq_inv (ensureSpace hint ?c)" using inv by (rule twoq_inv_ensureSpace)
    note n = ghost_not_cached[OF inv1 m(2)]
    have b: "LRUG_Contains (fst e) (recentEvict (TwoQ_Add k v ?c))
           \<and> TwoQ_Get (fst e) (TwoQ_Add k v ?c) = (None, TwoQ_Add k v ?c)"
      if nk: "\<not> TwoQ_Contains k ?c" and h: "hint = LRUG_Contains k (recentEvict ?c)"
    proof -
      from nk have kf: "k \<notin> set (LRUG_Keys (frequent ?c))"
        and kr: "k \<notin> set (LRUG_Keys (recent ?c))"
        by (simp_all add: TwoQ_Contains_def Contains_Keys)
      from ev h have ev': "evicts_recent (k \<in> set (LRUG_Keys (recentEvict ?c))) ?c"
        by (simp add: Contains_Keys)
      have g: "fst e \<in> set (LRUG_Keys (recentEvict (TwoQ_Add k v ?c)))"
        using inv kf kr ev' old by (rule Add_keeps_new_ghost)
      have inv2: "twoq_inv (TwoQ_Add k v ?c)" using inv by (rule twoq_inv_Add)
      from g ghost_not_cached(3)[OF inv2 g] show ?thesis by (simp add: Contains_Keys)
    qed
    from m(1) n(1) n(3) b show ?thesis by (simp add: Contains_Keys)
  qed
  have c: "TwoQ_Get x ?c = (None, ?c)
         \<and> LRUG_Peek x (frequent (TwoQ_Add x w ?c)) = Some w
         \<and> \<not> LRUG_Contains x (recent (TwoQ_Add x w ?c))
         \<and> \<not> LRUG_Contains x (recentEvict (TwoQ_Add x w ?c))"
    if "LRUG_Contains x (recentEvict ?c)"
  proof -
    from that have g: "x \<in> set (LRUG_Keys (recentEvict ?c))" by (simp add: Contains_Keys)
    from ghost_not_cached(3)[OF inv g] Add_ghost_lands_in_frequent[OF inv g, of w]
    show ?thesis by (simp add: Contains_Keys)
  qed
  from a c show ?thesis by blast
qed

theorem ghost_readmission_witness:
  "New2QParamsG fmul_exact int_indefinite 4 (1 / 4) (1 / 2) = Inr cache_4
   \<and> twoq_run [OpAdd 1 10, OpAdd 2 20, OpAdd 3 30, OpAdd 4 40] cache_4 = cache_4_full
   \<and> evicts_recent False cache_4_full
   \<and> LRUG_GetOldest (recent cache_4_full) = Some (1, 10)
   \<and> LRUG_Peek 1 (recentEvict (ensureSpace False cache_4_full)) = Some 0
   \<and> TwoQ_Get 1 (ensureSpace False cache_4_full) = (None, ensureSpace False cache_4_full)
   \<and> \<not> TwoQ_Contains 5 cache_4_full
   \<and> TwoQ_Add 5 50 cache_4_full = cache_4_ghost
   \<and> LRUG_Contains 1 (recentEvict cache_4_ghost)
   \<and> TwoQ_Get 1 cache_4_ghost = (None, cache_4_ghost)
   \<and> LRUG_Peek 1 (frequent (TwoQ_Add 1 11 cache_4_ghost)) = Some 11
   \<and> \<not> LRUG_Contains 1 (recent (TwoQ_Add 1 11 cache_4_ghost))
   \<and> \<not> LRUG_Contains 1 (recentEvict (TwoQ_Add 1 11 cache_4_ghost))"
proof -
  have ev: "evicts_recent False cache_4_full" by code_simp
  have old: "LRUG_GetOldest (recent cache_4_full) = Some (1, 10)" by code_simp
  have nk: "\<not> TwoQ_Contains 5 cache_4_full" by code_simp
  have h: "False = LRUG_Contains 5 (recentEvict cache_4_full)" by code_simp
  have add5: "TwoQ_Add 5 50 cache_4_full = cache_4_ghost" by code_simp
  have g: "LRUG_Contains 1 (recentEvict cache_4_ghost)" by code_simp
  note t1 = ghost_readmission[OF New_cache_4,
          of False "[OpAdd 1 10, OpAdd 2 20, OpAdd 3 30, OpAdd 4 40]" "(1, 10)" 5 50,
          unfolded run_cache_4_full]
  note t2 = ghost_readmission[OF New_cache_4,
          of _ "[OpAdd 1 10, OpAdd 2 20, OpAdd 3 30, OpAdd 4 40, OpAdd 5 50]" _ _ _ 1 11,
          unfolded run_cache_4_ghost]
  have p1: "LRUG_Peek 1 (recentEvict (ensureSpace False cache_4_full)) = Some 0
          \<and> TwoQ_Get 1 (ensureSpace False cache_4_full) = (None, ensureSpace False cache_4_full)"
    using t1 ev old by (simp add: default_int_def)
  have p2: "TwoQ_Get 1 cache_4_ghost = (None, cache_4_ghost)
          \<and> LRUG_Peek 1 (frequent (TwoQ_Add 1 11 cache_4_ghost)) = Some 11
          \<and> \<not> LRUG_Contains 1 (recent (TwoQ_Add 1 11 cache_4_ghost))
          \<and> \<not> LRUG_Contains 1 (recentEvict (TwoQ_Add 1 11 cache_4_ghost))"
    using t2 g by simp
  from p1 p2 ev old nk add5 g New_cache_4 run_cache_4_full show ?thesis by simp
qed

text \<open>
  In every reachable state, after \<^verbatim>\<open>Add(key, value)\<close> the key is cached with that value:
  \<^verbatim>\<open>Peek(key)\<close> returns the value and \<^verbatim>\<open>Contains(key)\<close> is true. The pool the key lands in
  (frequent when the key was cached or a ghost, recent otherwise) holds it with that value
  after the call: its capacity is positive, and its own eviction, when it happens, removes
  its oldest entry, not the key just added.
\<close>

lemma TwoQ_Add_caches_key:
  assumes new: "New2QParamsG fmul oor sz rr gr = Inr c0"
  shows "TwoQ_Peek k (TwoQ_Add k v (twoq_run ops c0)) = Some v
       \<and> TwoQ_Contains k (TwoQ_Add k v (twoq_run ops c0))
       \<and> LRUG_Peek k
           (if TwoQ_Contains k (twoq_run ops c0) \<or> LRUG_Contains k (recentEvict (twoq_run ops c0))
            then frequent (TwoQ_Add k v (twoq_run ops c0))
            else recent (TwoQ_Add k v (twoq_run ops c0))) = Some v"
proof -
  have inv: "twoq_inv (twoq_run ops c0)" using new by (rule twoq_inv_reachable)
  from Add_lands[OF inv, of k v] show ?thesis by blast
qed

lemma TwoQ_Add_caches_key_example:
  "New2QParamsG fmul_exact int_indefinite 4 (1 / 4) (1 / 2) = Inr cache_4
   \<and> twoq_run [OpAdd 1 10, OpAdd 2 20, OpAdd 3 30, OpAdd 4 40, OpAdd 5 50] cache_4 = cache_4_ghost
   \<and> TwoQ_Peek 1 (TwoQ_Add 1 11 cache_4_ghost) = Some 11
   \<and> TwoQ_Contains 1 (TwoQ_Add 1 11 cache_4_ghost)
   \<and> LRUG_Peek 1 (frequent (TwoQ_Add 1 11 cache_4_ghost)) = Some 11
   \<and> TwoQ_Peek 6 (TwoQ_Add 6 60 cache_4_ghost) = Some 60
   \<and> LRUG_Peek 6 (recent (TwoQ_Add 6 60 cache_4_ghost)) = Some 60"
proof -
  have g1: "LRUG_Contains 1 (recentEvict cache_4_ghost)" by code_simp
  have g6: "\<not> TwoQ_Contains 6 cache_4_ghost" "\<not> LRUG_Contains 6 (recentEvict cache_4_ghost)"
    by code_simp+
  note t1 = TwoQ_Add_caches_key[OF New_cache_4,
          of 1 11 "[OpAdd 1 10, OpAdd 2 20, OpAdd 3 30, OpAdd 4 40, OpAdd 5 50]",
          unfolded run_cache_4_ghost]
  note t6 = TwoQ_Add_caches_key[OF New_cache_4,
          of 6 60 "[OpAdd 1 10, OpAdd 2 20, OpAdd 3 30, OpAdd 4 40, OpAdd 5 50]",
          unfolded run_cache_4_ghost]
  from t1 g1 t6 g6 New_cache_4 run_cache_4_ghost show ?thesis by simp
qed

section \<open>The size bound when the recent pool has less than the whole capacity\<close>

text \<open>
  When the recent size \<^verbatim>\<open>int(float64(size) * recentRatio)\<close> is smaller than the size, a full
  cache always has a victim for \<^verbatim>\<open>ensureSpace\<close>: either recent is above its share, or
  frequent is not empty. Recent and frequent together then hold at most size entries after
  every sequence of public operations. The example of the full cache above needs the
  recent size to equal the size.
\<close>

lemma Len_Add_le:
  assumes "distinct (LRUG_Keys p)"
  shows "LRUG_Len (snd (LRUG_Add k v p)) \<le> LRUG_Len p + 1"
    and "k \<in> set (LRUG_Keys p) \<Longrightarrow> LRUG_Len (snd (LRUG_Add k v p)) \<le> LRUG_Len p"
proof -
  let ?m = "omap_Delete (items p) k @ [(k, v)]"
  have d: "distinct (map fst (items p))" using assms by (simp add: LRUG_Keys_items)
  have i: "items (snd (LRUG_Add k v p)) = (if int (length ?m) > size_lru p then tl ?m else ?m)"
    using items_LRUG_Add[OF d, of k v] by (simp add: Let_def)
  have l: "length (items (snd (LRUG_Add k v p))) \<le> length ?m"
    by (simp add: i del: length_append)
  have "length ?m \<le> length (items p) + 1"
    using length_omap_Delete_le[of "items p" k] by simp
  with l show "LRUG_Len (snd (LRUG_Add k v p)) \<le> LRUG_Len p + 1"
    by (simp add: LRUG_Len_items del: length_append)
  assume "k \<in> set (LRUG_Keys p)"
  then have "k \<in> fst ` set (items p)" by (simp add: LRUG_Keys_items)
  from length_omap_Delete_present[OF d this] have "length ?m = length (items p)" by simp
  with l show "LRUG_Len (snd (LRUG_Add k v p)) \<le> LRUG_Len p"
    by (simp add: LRUG_Len_items del: length_append)
qed

lemma Len_Remove_le: "LRUG_Len (snd (LRUG_Remove k p)) \<le> LRUG_Len p"
  by (simp add: LRUG_Len_items items_LRUG_Remove length_omap_Delete_le)

lemma Len_Remove_present:
  assumes "distinct (LRUG_Keys p)" and "k \<in> set (LRUG_Keys p)"
  shows "LRUG_Len (snd (LRUG_Remove k p)) = LRUG_Len p - 1"
proof -
  have "Suc (length (omap_Delete (items p) k)) = length (items p)"
    using assms by (intro length_omap_Delete_present) (simp_all add: LRUG_Keys_items)
  then show ?thesis by (simp add: LRUG_Len_items items_LRUG_Remove)
qed

lemma Len_RemoveOldest:
  assumes "distinct (LRUG_Keys p)"
  shows "LRUG_Len (snd (LRUG_RemoveOldest p)) \<le> LRUG_Len p"
    and "0 < LRUG_Len p \<Longrightarrow> LRUG_Len (snd (LRUG_RemoveOldest p)) = LRUG_Len p - 1"
proof -
  have i: "items (snd (LRUG_RemoveOldest p)) = tl (items p)"
    using assms by (simp add: items_LRUG_RemoveOldest LRUG_Keys_items)
  show "LRUG_Len (snd (LRUG_RemoveOldest p)) \<le> LRUG_Len p"
    by (simp add: LRUG_Len_items i)
  assume "0 < LRUG_Len p"
  then have "items p \<noteq> []" by (auto simp: LRUG_Len_items)
  then have "Suc (length (tl (items p))) = length (items p)" by simp
  then show "LRUG_Len (snd (LRUG_RemoveOldest p)) = LRUG_Len p - 1"
    by (simp add: LRUG_Len_items i del: length_tl)
qed

lemma Len_Get:
  assumes "distinct (LRUG_Keys p)"
  shows "LRUG_Len (snd (LRUG_Get k p)) = LRUG_Len p"
proof (cases "map_of (items p) k")
  case None
  then show ?thesis by (simp add: LRUG_Len_items items_LRUG_Get)
next
  case (Some v)
  then have "k \<in> fst ` set (items p)" using map_of_None_iff[of "items p" k] by simp
  with assms have "Suc (length (omap_Delete (items p) k)) = length (items p)"
    by (intro length_omap_Delete_present) (simp_all add: LRUG_Keys_items)
  with Some show ?thesis by (simp add: LRUG_Len_items items_LRUG_Get)
qed

lemma Len_Purge: "LRUG_Len (LRUG_Purge p) = 0"
  by (simp add: LRUG_Len_items items_LRUG_Purge)

lemma Len_nonneg: "0 \<le> LRUG_Len p"
  by (simp add: LRUG_Len_items)

lemma ensureSpace_makes_room:
  assumes inv: "twoq_inv c" and le: "TwoQ_Len c \<le> size_2q c"
    and rs: "recentSize c < size_2q c" and pos: "0 < size_2q c"
  shows "TwoQ_Len (ensureSpace hint c) < size_2q c"
proof -
  note d = twoq_invD[OF inv]
  consider (room) "LRUG_Len (recent c) + LRUG_Len (frequent c) < size_2q c"
    | (rec) "evicts_recent hint c"
    | (freq) "size_2q c \<le> LRUG_Len (recent c) + LRUG_Len (frequent c)" "\<not> evicts_recent hint c"
    by fastforce
  then show ?thesis
  proof cases
    case room
    then show ?thesis by (simp add: ensureSpace_room TwoQ_Len_def)
  next
    case rec
    from ensureSpace_recent[OF rec] obtain e where
      old: "LRUG_GetOldest (recent c) = Some e" and
      es: "ensureSpace hint c =
             c\<lparr>recent := snd (LRUG_RemoveOldest (recent c)),
               recentEvict := snd (LRUG_Add (fst e) default (recentEvict c))\<rparr>"
      by blast
    from rec have "0 < LRUG_Len (recent c)" by (simp add: evicts_recent_def)
    from Len_RemoveOldest(2)[OF d(1) this] le show ?thesis
      by (simp add: es TwoQ_Len_def)
  next
    case freq
    from freq le have "LRUG_Len (recent c) \<le> recentSize c \<or> LRUG_Len (recent c) \<le> 0"
      by (auto simp: evicts_recent_def)
    with rs pos have "LRUG_Len (recent c) < size_2q c" by linarith
    with freq(1) have "0 < LRUG_Len (frequent c)" by linarith
    from Len_RemoveOldest(2)[OF d(2) this] le show ?thesis
      by (simp add: ensureSpace_frequent[OF freq] TwoQ_Len_def)
  qed
qed


lemma TwoQ_Len_Add:
  assumes inv: "twoq_inv c" and le: "TwoQ_Len c \<le> size_2q c"
    and rs: "recentSize c < size_2q c" and pos: "0 < size_2q c"
  shows "TwoQ_Len (TwoQ_Add k v c) \<le> size_2q c"
    and "size_2q (TwoQ_Add k v c) = size_2q c"
    and "recentSize (TwoQ_Add k v c) = recentSize c"
proof -
  note d = twoq_invD[OF inv]
  consider (fr) "k \<in> set (LRUG_Keys (frequent c))"
    | (rc) "k \<notin> set (LRUG_Keys (frequent c))" "k \<in> set (LRUG_Keys (recent c))"
    | (gh) "k \<notin> set (LRUG_Keys (frequent c))" "k \<notin> set (LRUG_Keys (recent c))"
           "k \<in> set (LRUG_Keys (recentEvict c))"
    | (nw) "k \<notin> set (LRUG_Keys (frequent c))" "k \<notin> set (LRUG_Keys (recent c))"
           "k \<notin> set (LRUG_Keys (recentEvict c))"
    by blast
  then have "TwoQ_Len (TwoQ_Add k v c) \<le> size_2q c
           \<and> size_2q (TwoQ_Add k v c) = size_2q c
           \<and> recentSize (TwoQ_Add k v c) = recentSize c"
  proof cases
    case fr
    from Len_Add_le(2)[OF d(2) fr, of v] le show ?thesis
      by (simp add: TwoQ_Add_frequent[OF fr] TwoQ_Len_def)
  next
    case rc
    from Len_Add_le(1)[OF d(2), of k v] Len_Remove_present[OF d(1) rc(2)] le show ?thesis
      by (simp add: TwoQ_Add_recent[OF rc] TwoQ_Len_def)
  next
    case gh
    let ?c = "ensureSpace True c"
    have inv1: "twoq_inv ?c" using inv by (rule twoq_inv_ensureSpace)
    note e = twoq_invD[OF inv1]
    from ensureSpace_makes_room[OF inv le rs pos, of True] Len_Add_le(1)[OF e(2), of k v]
    show ?thesis
      by (simp add: TwoQ_Add_ghost[OF gh] TwoQ_Len_def ensureSpace_keys(3,4)[OF inv])
  next
    case nw
    let ?c = "ensureSpace False c"
    have inv1: "twoq_inv ?c" using inv by (rule twoq_inv_ensureSpace)
    note e = twoq_invD[OF inv1]
    from ensureSpace_makes_room[OF inv le rs pos, of False] Len_Add_le(1)[OF e(1), of k v]
    show ?thesis
      by (simp add: TwoQ_Add_new[OF nw] TwoQ_Len_def ensureSpace_keys(3,4)[OF inv])
  qed
  then show "TwoQ_Len (TwoQ_Add k v c) \<le> size_2q c"
    and "size_2q (TwoQ_Add k v c) = size_2q c"
    and "recentSize (TwoQ_Add k v c) = recentSize c"
    by blast+
qed

lemma TwoQ_Len_Get:
  assumes inv: "twoq_inv c" and le: "TwoQ_Len c \<le> size_2q c"
  shows "TwoQ_Len (snd (TwoQ_Get k c)) \<le> size_2q c"
    and "size_2q (snd (TwoQ_Get k c)) = size_2q c"
    and "recentSize (snd (TwoQ_Get k c)) = recentSize c"
proof -
  note d = twoq_invD[OF inv]
  have "TwoQ_Len (snd (TwoQ_Get k c)) \<le> size_2q c
      \<and> size_2q (snd (TwoQ_Get k c)) = size_2q c
      \<and> recentSize (snd (TwoQ_Get k c)) = recentSize c"
  proof (cases "k \<in> set (LRUG_Keys (frequent c))")
    case True
    from Len_Get[OF d(2), of k] le show ?thesis
      by (simp add: TwoQ_Get_frequent[OF True] TwoQ_Len_def)
  next
    case False
    show ?thesis
    proof (cases "LRUG_Peek k (recent c)")
      case None
      then have "k \<notin> set (LRUG_Keys (recent c))" by (simp add: Peek_None_Keys)
      with False le show ?thesis by (simp add: TwoQ_Get_miss)
    next
      case (Some v)
      have kr: "k \<in> set (LRUG_Keys (recent c))"
        using Some Peek_None_Keys[of k "recent c"] by auto
      from Len_Add_le(1)[OF d(2), of k v] Len_Remove_present[OF d(1) kr] le show ?thesis
        by (simp add: TwoQ_Get_recent[OF False Some] TwoQ_Len_def)
    qed
  qed
  then show "TwoQ_Len (snd (TwoQ_Get k c)) \<le> size_2q c"
    and "size_2q (snd (TwoQ_Get k c)) = size_2q c"
    and "recentSize (snd (TwoQ_Get k c)) = recentSize c"
    by blast+
qed

lemma TwoQ_Len_Remove:
  assumes le: "TwoQ_Len c \<le> size_2q c"
  shows "TwoQ_Len (TwoQ_Remove k c) \<le> size_2q c"
    and "size_2q (TwoQ_Remove k c) = size_2q c"
    and "recentSize (TwoQ_Remove k c) = recentSize c"
  using le Len_Remove_le[of k "recent c"] Len_Remove_le[of k "frequent c"]
  by (simp_all add: TwoQ_Remove_unfold TwoQ_Len_def)

lemma TwoQ_Len_Purge:
  assumes pos: "0 < size_2q c"
  shows "TwoQ_Len (TwoQ_Purge c) \<le> size_2q c"
    and "size_2q (TwoQ_Purge c) = size_2q c"
    and "recentSize (TwoQ_Purge c) = recentSize c"
  using pos by (simp_all add: TwoQ_Purge_def TwoQ_Len_def Len_Purge)

lemma TwoQ_Len_step:
  assumes inv: "twoq_inv c" and le: "TwoQ_Len c \<le> size_2q c"
    and rs: "recentSize c < size_2q c" and pos: "0 < size_2q c"
  shows "TwoQ_Len (twoq_step x c) \<le> size_2q (twoq_step x c)
       \<and> recentSize (twoq_step x c) < size_2q (twoq_step x c)
       \<and> 0 < size_2q (twoq_step x c)"
  using le rs pos TwoQ_Len_Add[OF inv le rs pos] TwoQ_Len_Get[OF inv le]
        TwoQ_Len_Remove[OF le] TwoQ_Len_Purge[OF pos]
  by (cases x) simp_all

lemma TwoQ_Len_run:
  assumes "twoq_inv c" and "TwoQ_Len c \<le> size_2q c"
    and "recentSize c < size_2q c" and "0 < size_2q c"
  shows "TwoQ_Len (twoq_run ops c) \<le> size_2q (twoq_run ops c)"
  using assms unfolding twoq_run_def
proof (induction ops arbitrary: c)
  case Nil
  then show ?case by simp
next
  case (Cons x ops)
  from TwoQ_Len_step[OF Cons.prems, of x] twoq_inv_step[OF Cons.prems(1), of x]
  show ?case by (simp add: Cons.IH)
qed

lemma TwoQ_Len_le_size_if_recentSize_less:
  assumes new: "New2QParamsG fmul oor sz rr gr = Inr c0"
    and rs: "float_to_int oor (fmul sz rr) < sz"
  shows "TwoQ_Len (twoq_run ops c0) \<le> size_2q (twoq_run ops c0)"
proof -
  from new have c0: "size_2q c0 = sz" "recentSize c0 = float_to_int oor (fmul sz rr)"
    "items (recent c0) = []" "items (frequent c0) = []" "0 < sz"
    by (auto simp: New2QParamsG_def Let_def split: if_splits sum.splits dest!: NewLRUG_Inr)
  have "twoq_inv c0" using new by (rule twoq_inv_new)
  moreover have "TwoQ_Len c0 \<le> size_2q c0" using c0 by (simp add: TwoQ_Len_def LRUG_Len_items)
  moreover have "recentSize c0 < size_2q c0" using c0 rs by simp
  moreover have "0 < size_2q c0" using c0 by simp
  ultimately show ?thesis by (rule TwoQ_Len_run)
qed

lemma fst_LRUG_Add:
  "fst (LRUG_Add k v p) \<longleftrightarrow> size_lru p < int (length (omap_Delete (items p) k)) + 1"
  by (simp add: LRUG_Add_unfold Let_def)

lemma Add_no_eviction_present:
  assumes "distinct (LRUG_Keys p)" and "k \<in> set (LRUG_Keys p)" and "LRUG_Len p \<le> size_lru p"
  shows "\<not> fst (LRUG_Add k v p)"
proof -
  have "Suc (length (omap_Delete (items p) k)) = length (items p)"
    using assms(1,2) by (intro length_omap_Delete_present) (simp_all add: LRUG_Keys_items)
  then have "int (length (omap_Delete (items p) k)) + 1 = LRUG_Len p"
    by (simp add: LRUG_Len_items)
  with assms(3) show ?thesis by (simp add: fst_LRUG_Add)
qed

lemma Add_no_eviction_room:
  assumes "LRUG_Len p < size_lru p"
  shows "\<not> fst (LRUG_Add k v p)"
proof -
  have "int (length (omap_Delete (items p) k)) \<le> LRUG_Len p"
    using length_omap_Delete_le[of "items p" k] by (simp add: LRUG_Len_items)
  with assms show ?thesis by (simp add: fst_LRUG_Add)
qed

lemma ensureSpace_caps:
  assumes inv: "twoq_inv c"
  shows "size_lru (recent (ensureSpace hint c)) = size_lru (recent c)"
    and "size_lru (frequent (ensureSpace hint c)) = size_lru (frequent c)"
proof -
  consider (room) "LRUG_Len (recent c) + LRUG_Len (frequent c) < size_2q c"
    | (rec) "evicts_recent hint c"
    | (freq) "size_2q c \<le> LRUG_Len (recent c) + LRUG_Len (frequent c)" "\<not> evicts_recent hint c"
    by fastforce
  then have "size_lru (recent (ensureSpace hint c)) = size_lru (recent c)
           \<and> size_lru (frequent (ensureSpace hint c)) = size_lru (frequent c)"
  proof cases
    case room
    then show ?thesis by (simp add: ensureSpace_room)
  next
    case rec
    from ensureSpace_recent[OF rec] obtain e where
      old: "LRUG_GetOldest (recent c) = Some e" and
      es: "ensureSpace hint c =
             c\<lparr>recent := snd (LRUG_RemoveOldest (recent c)),
               recentEvict := snd (LRUG_Add (fst e) default (recentEvict c))\<rparr>"
      by blast
    show ?thesis by (simp add: es size_lru_LRUG_RemoveOldest)
  next
    case freq
    show ?thesis by (simp add: ensureSpace_frequent[OF freq] size_lru_LRUG_RemoveOldest)
  qed
  then show "size_lru (recent (ensureSpace hint c)) = size_lru (recent c)"
    and "size_lru (frequent (ensureSpace hint c)) = size_lru (frequent c)"
    by blast+
qed

lemma caps_Add:
  assumes inv: "twoq_inv c"
  shows "size_lru (recent (TwoQ_Add k v c)) = size_lru (recent c)"
    and "size_lru (frequent (TwoQ_Add k v c)) = size_lru (frequent c)"
proof -
  consider (fr) "k \<in> set (LRUG_Keys (frequent c))"
    | (rc) "k \<notin> set (LRUG_Keys (frequent c))" "k \<in> set (LRUG_Keys (recent c))"
    | (gh) "k \<notin> set (LRUG_Keys (frequent c))" "k \<notin> set (LRUG_Keys (recent c))"
           "k \<in> set (LRUG_Keys (recentEvict c))"
    | (nw) "k \<notin> set (LRUG_Keys (frequent c))" "k \<notin> set (LRUG_Keys (recent c))"
           "k \<notin> set (LRUG_Keys (recentEvict c))"
    by blast
  then have "size_lru (recent (TwoQ_Add k v c)) = size_lru (recent c)
           \<and> size_lru (frequent (TwoQ_Add k v c)) = size_lru (frequent c)"
  proof cases
    case fr
    then show ?thesis by (simp add: TwoQ_Add_frequent size_lru_LRUG_Add)
  next
    case rc
    then show ?thesis by (simp add: TwoQ_Add_recent size_lru_LRUG_Add size_lru_LRUG_Remove)
  next
    case gh
    then show ?thesis
      by (simp add: TwoQ_Add_ghost size_lru_LRUG_Add ensureSpace_caps[OF inv])
  next
    case nw
    then show ?thesis
      by (simp add: TwoQ_Add_new size_lru_LRUG_Add ensureSpace_caps[OF inv])
  qed
  then show "size_lru (recent (TwoQ_Add k v c)) = size_lru (recent c)"
    and "size_lru (frequent (TwoQ_Add k v c)) = size_lru (frequent c)"
    by blast+
qed

lemma caps_Get:
  "size_lru (recent (snd (TwoQ_Get k c))) = size_lru (recent c)"
  "size_lru (frequent (snd (TwoQ_Get k c))) = size_lru (frequent c)"
proof -
  have "size_lru (recent (snd (TwoQ_Get k c))) = size_lru (recent c)
      \<and> size_lru (frequent (snd (TwoQ_Get k c))) = size_lru (frequent c)"
  proof (cases "k \<in> set (LRUG_Keys (frequent c))")
    case True
    then show ?thesis by (simp add: TwoQ_Get_frequent size_lru_LRUG_Get)
  next
    case False
    show ?thesis
    proof (cases "LRUG_Peek k (recent c)")
      case None
      then have "k \<notin> set (LRUG_Keys (recent c))" by (simp add: Peek_None_Keys)
      with False show ?thesis by (simp add: TwoQ_Get_miss)
    next
      case (Some v)
      show ?thesis
        by (simp add: TwoQ_Get_recent[OF False Some] size_lru_LRUG_Add size_lru_LRUG_Remove)
    qed
  qed
  then show "size_lru (recent (snd (TwoQ_Get k c))) = size_lru (recent c)"
    and "size_lru (frequent (snd (TwoQ_Get k c))) = size_lru (frequent c)"
    by blast+
qed

lemma caps_step:
  assumes inv: "twoq_inv c" and le: "TwoQ_Len c \<le> size_2q c"
    and rs: "recentSize c < size_2q c" and pos: "0 < size_2q c"
    and cr: "size_lru (recent c) = size_2q c" and cf: "size_lru (frequent c) = size_2q c"
  shows "size_lru (recent (twoq_step x c)) = size_2q (twoq_step x c)
       \<and> size_lru (frequent (twoq_step x c)) = size_2q (twoq_step x c)"
  using cr cf
  by (cases x)
     (simp_all add: caps_Add[OF inv] caps_Get TwoQ_Len_Add(2)[OF inv le rs pos]
        TwoQ_Len_Get(2)[OF inv le] TwoQ_Remove_unfold TwoQ_Purge_def
        size_lru_LRUG_Remove size_lru_LRUG_Purge)

lemma caps_run:
  assumes "twoq_inv c" and "TwoQ_Len c \<le> size_2q c"
    and "recentSize c < size_2q c" and "0 < size_2q c"
    and "size_lru (recent c) = size_2q c" and "size_lru (frequent c) = size_2q c"
  shows "size_lru (recent (twoq_run ops c)) = size_2q (twoq_run ops c)
       \<and> size_lru (frequent (twoq_run ops c)) = size_2q (twoq_run ops c)
       \<and> recentSize (twoq_run ops c) < size_2q (twoq_run ops c)
       \<and> 0 < size_2q (twoq_run ops c)"
  using assms unfolding twoq_run_def
proof (induction ops arbitrary: c)
  case Nil
  then show ?case by simp
next
  case (Cons x ops)
  from TwoQ_Len_step[OF Cons.prems(1-4), of x] twoq_inv_step[OF Cons.prems(1), of x]
       caps_step[OF Cons.prems, of x]
  show ?case by (simp add: Cons.IH)
qed

text \<open>
  Under the same condition the pool an added key lands in has room for it: the call of
  \<^verbatim>\<open>Add\<close> of the bounded ordered cache that inserts the key evicts nothing.
\<close>

lemma TwoQ_Add_pool_has_room_if_recentSize_less:
  assumes new: "New2QParamsG fmul oor sz rr gr = Inr c0"
    and rs: "float_to_int oor (fmul sz rr) < sz"
  shows "\<not> fst (LRUG_Add k v
            (if TwoQ_Contains k (twoq_run ops c0) then frequent (twoq_run ops c0)
             else if LRUG_Contains k (recentEvict (twoq_run ops c0))
             then frequent (ensureSpace True (twoq_run ops c0))
             else recent (ensureSpace False (twoq_run ops c0))))"
proof -
  let ?c = "twoq_run ops c0"
  from new have c0: "size_2q c0 = sz" "recentSize c0 = float_to_int oor (fmul sz rr)"
    "items (recent c0) = []" "items (frequent c0) = []" "0 < sz"
    "size_lru (recent c0) = sz" "size_lru (frequent c0) = sz"
    by (auto simp: New2QParamsG_def Let_def split: if_splits sum.splits dest!: NewLRUG_Inr)
  have inv0: "twoq_inv c0" using new by (rule twoq_inv_new)
  have le0: "TwoQ_Len c0 \<le> size_2q c0" using c0 by (simp add: TwoQ_Len_def LRUG_Len_items)
  have rs0: "recentSize c0 < size_2q c0" and pos0: "0 < size_2q c0" using c0 rs by simp_all
  have cr0: "size_lru (recent c0) = size_2q c0" and cf0: "size_lru (frequent c0) = size_2q c0"
    using c0 by simp_all
  have inv: "twoq_inv ?c" using inv0 by (rule twoq_inv_run)
  note d = twoq_invD[OF inv]
  have le: "TwoQ_Len ?c \<le> size_2q ?c" using inv0 le0 rs0 pos0 by (rule TwoQ_Len_run)
  from caps_run[OF inv0 le0 rs0 pos0 cr0 cf0, of ops]
  have cr: "size_lru (recent ?c) = size_2q ?c" and cf: "size_lru (frequent ?c) = size_2q ?c"
    and rs': "recentSize ?c < size_2q ?c" and pos: "0 < size_2q ?c"
    by simp_all
  consider (fr) "k \<in> set (LRUG_Keys (frequent ?c))"
    | (rc) "k \<notin> set (LRUG_Keys (frequent ?c))" "k \<in> set (LRUG_Keys (recent ?c))"
    | (gh) "k \<notin> set (LRUG_Keys (frequent ?c))" "k \<notin> set (LRUG_Keys (recent ?c))"
           "k \<in> set (LRUG_Keys (recentEvict ?c))"
    | (nw) "k \<notin> set (LRUG_Keys (frequent ?c))" "k \<notin> set (LRUG_Keys (recent ?c))"
           "k \<notin> set (LRUG_Keys (recentEvict ?c))"
    by blast
  then show ?thesis
  proof cases
    case fr
    have "LRUG_Len (frequent ?c) \<le> size_lru (frequent ?c)"
      using le cf Len_nonneg[of "recent ?c"] by (simp add: TwoQ_Len_def)
    from Add_no_eviction_present[OF d(2) fr this] fr show ?thesis
      by (simp add: TwoQ_Contains_def Contains_Keys)
  next
    case rc
    from rc(2) have "items (recent ?c) \<noteq> []" by (auto simp: LRUG_Keys_items)
    then have "0 < LRUG_Len (recent ?c)" by (simp add: LRUG_Len_items)
    with le cf have "LRUG_Len (frequent ?c) < size_lru (frequent ?c)"
      by (simp add: TwoQ_Len_def)
    from Add_no_eviction_room[OF this] rc show ?thesis
      by (simp add: TwoQ_Contains_def Contains_Keys)
  next
    case gh
    from ensureSpace_makes_room[OF inv le rs' pos, of True] cf
         Len_nonneg[of "recent (ensureSpace True ?c)"]
    have "LRUG_Len (frequent (ensureSpace True ?c)) < size_lru (frequent (ensureSpace True ?c))"
      by (simp add: TwoQ_Len_def ensureSpace_caps[OF inv])
    from Add_no_eviction_room[OF this] gh show ?thesis
      by (simp add: TwoQ_Contains_def Contains_Keys)
  next
    case nw
    from ensureSpace_makes_room[OF inv le rs' pos, of False] cr
         Len_nonneg[of "frequent (ensureSpace False ?c)"]
    have "LRUG_Len (recent (ensureSpace False ?c)) < size_lru (recent (ensureSpace False ?c))"
      by (simp add: TwoQ_Len_def ensureSpace_caps[OF inv])
    from Add_no_eviction_room[OF this] nw show ?thesis
      by (simp add: TwoQ_Contains_def Contains_Keys)
  qed
qed

section \<open>Adding a key when the cache holds more than its size\<close>

text \<open>
  Claim C9 says that after \<^verbatim>\<open>Add(key, value)\<close> the key is cached with that value, because
  \<^verbatim>\<open>ensureSpace\<close> never evicts the key being added and the pool it lands in always has room
  for it. The key is indeed cached with its value in every reachable state, and the pool has
  room as long as the recent size is smaller than the size (both shown above). On the cache
  of \<^verbatim>\<open>New2QParamsG(2, 1.0, 1.0)\<close>, where the recent size equals the size, the pool does
  not always have room. After \<^verbatim>\<open>Add(1, 10); Add(2, 20); Add(3, 30); Add(1, 11); Get(2)\<close>
  the cache of size 2 holds three entries: recent holds key 3 and frequent, of capacity 2,
  holds the keys 1 and 2. \<^verbatim>\<open>Add(3, 33)\<close> finds key 3 in recent and moves it to frequent
  without calling \<^verbatim>\<open>ensureSpace\<close>; frequent is full, its own eviction fires and drops
  key 1, which was cached before the call and is not afterwards.
\<close>

theorem TwoQ_Add_full_pool_example:
  "New2QParamsG fmul_exact int_indefinite 2 1 1 = Inr cache_2_1_1
   \<and> twoq_run [OpAdd 1 10, OpAdd 2 20, OpAdd 3 30, OpAdd 1 11, OpGet 2] cache_2_1_1
       = cache_2_1_1_over
   \<and> LRUG_Contains 3 (recent cache_2_1_1_over)
   \<and> LRUG_Len (frequent cache_2_1_1_over) = size_lru (frequent cache_2_1_1_over)
   \<and> fst (LRUG_Add 3 33 (frequent cache_2_1_1_over))
   \<and> TwoQ_Peek 1 cache_2_1_1_over = Some 11
   \<and> TwoQ_Peek 1 (TwoQ_Add 3 33 cache_2_1_1_over) = None
   \<and> TwoQ_Peek 3 (TwoQ_Add 3 33 cache_2_1_1_over) = Some 33
   \<and> LRUG_Keys (frequent (TwoQ_Add 3 33 cache_2_1_1_over)) = [2, 3]"
  by code_simp

end
